theory Spec2Isabelle
  imports Main "HOL-Library.Word" "HOL-Library.Monad_Syntax"
begin

unbundle bit_operations_syntax

section \<open>The transaction cache of abcd/bitcoin/TxDatabase.cpp\<close>

subsection \<open>Data model\<close>

text \<open>
  Machine types. \<open>bc::hash_digest\<close> is an array of 32 bytes; it is held as a 256-bit
  word whose bytes, least significant first, are the elements of the array. \<open>long long\<close>,
  \<open>size_t\<close> and \<open>time_t\<close> are 64-bit words (the signed ones are read with \<open>sint\<close>),
  \<open>unsigned\<close> is a 32-bit word.
\<close>

type_synonym byte = "8 word"
type_synonym data_chunk = "byte list"
type_synonym hash_digest = "256 word"
type_synonym long_long = "64 word"
type_synonym size_t = "64 word"
type_synonym time_t = "64 word"

text \<open>
  The transaction types of libbitcoin (\<open>bc::point_type\<close>, \<open>bc::transaction_input_type\<close>,
  \<open>bc::transaction_output_type\<close>, \<open>bc::transaction_type\<close>), with the fields the cache reads.
\<close>

record point_type =
  hash :: hash_digest
  index :: "32 word"

record transaction_input_type =
  previous_output :: point_type
  input_script :: data_chunk
  sequence :: "32 word"

record transaction_output_type =
  output_value :: "64 word"
  output_script :: data_chunk

record transaction_type =
  version :: "32 word"
  locktime :: "32 word"
  inputs :: "transaction_input_type list"
  outputs :: "transaction_output_type list"

text \<open>
  Modelled from the spec: the enumeration \<open>TxState\<close> is declared in TxDatabase.hpp, which
  is not among the sources; section 3 gives its two values and section 4.5 their bytes
  (0 for \<open>unconfirmed\<close>, 1 for \<open>confirmed\<close>). \<open>load\<close> casts any byte of the input into the
  enumeration and \<open>serialize\<close> casts it back, so a state is held as the byte of its
  underlying value, with the two enumerators as constants.
\<close>

type_synonym TxState = byte

definition unconfirmed :: TxState where
  "unconfirmed = 0"

definition confirmed :: TxState where
  "confirmed = 1"

text \<open>
  Modelled from the spec: the struct \<open>TxRow\<close> is declared in TxDatabase.hpp, which is
  not among the sources; its fields are those of section 3 of the specification, in the
  order of the aggregate initialisation in \<open>TxDatabase::insert\<close>.
\<close>

record TxRow =
  tx :: transaction_type
  txid :: hash_digest
  ntxid :: hash_digest
  state :: TxState
  block_height :: long_long
  timestamp :: time_t
  bMalleated :: bool
  bMasterConfirm :: bool
  need_check :: bool

text \<open>
  Modelled from the spec: the members of the class \<open>TxDatabase\<close> are declared in
  TxDatabase.hpp, which is not among the sources; they are those of section 3 of the
  specification, with the types the source gives them where it reads and writes them
  (\<open>last_height_\<close> is assigned from a \<open>size_t\<close>, \<open>unconfirmed_timeout_\<close> from an \<open>unsigned\<close>).

  \<open>rows_\<close> is a \<open>std::unordered_map<bc::hash_digest, TxRow>\<close>. It is held as the list of
  its (key, row) nodes in iteration order. The standard leaves that order open, so
  nothing below depends on a particular one: a statement about one operation is made
  for every list. A node that \<open>operator[]\<close> creates is put at the end of the list; a
  table that places it elsewhere iterates the same nodes in another order.
\<close>

type_synonym row_table = "(hash_digest \<times> TxRow) list"

record TxDatabase =
  rows :: row_table
  last_height :: size_t
  unconfirmed_timeout :: "32 word"

text \<open>The keys of a map are unique.\<close>

definition unique_keys :: "row_table \<Rightarrow> bool" where
  "unique_keys rs = distinct (map fst rs)"

text \<open>Invariant 1 of the data model: a row is stored under its own \<open>txid\<close>.\<close>

definition keyed_by_txid :: "row_table \<Rightarrow> bool" where
  "keyed_by_txid rs = list_all (\<lambda>(k, row). txid row = k) rs"

text \<open>
  The codec of libbitcoin that the cache calls: the two hashes of a transaction and
  its wire format. \<open>satoshi_load\<close> throws \<open>end_of_stream\<close> (here \<open>None\<close>) when the input
  ends inside the transaction.
\<close>

record codec =
  hash_transaction :: "transaction_type \<Rightarrow> hash_digest"
  makeNtxid :: "transaction_type \<Rightarrow> hash_digest"
  satoshi_save :: "transaction_type \<Rightarrow> data_chunk"
  satoshi_load :: "data_chunk \<Rightarrow> transaction_type option"
  satoshi_raw_size :: "transaction_type \<Rightarrow> nat"

text \<open>\<open>Status\<close>: an error code with its message, or success.\<close>

datatype AbcCc = ABC_CC_ParseError | ABC_CC_Synchronizing

datatype error = ABC_ERROR AbcCc string

definition NotInDatabase :: error where
  "NotInDatabase = ABC_ERROR ABC_CC_Synchronizing ''tx isn't in the database''"

definition OutdatedFormat :: error where
  "OutdatedFormat = ABC_ERROR ABC_CC_ParseError ''Outdated transaction database format''"

definition UnknownHeader :: error where
  "UnknownHeader = ABC_ERROR ABC_CC_ParseError ''Unknown transaction database header''"

definition UnknownRecord :: error where
  "UnknownRecord = ABC_ERROR ABC_CC_ParseError ''Unknown entry in transaction database''"

definition Truncated :: error where
  "Truncated = ABC_ERROR ABC_CC_ParseError ''Truncated transaction database''"

subsection \<open>Row access\<close>

text \<open>\<open>rows_.find(txid)\<close> is \<open>map_of\<close>. A write through an iterator or a \<open>TxRow *\<close>
  changes the node stored under that key.\<close>

fun modify :: "hash_digest \<Rightarrow> (TxRow \<Rightarrow> TxRow) \<Rightarrow> row_table \<Rightarrow> row_table" where
  "modify k f [] = []"
| "modify k f ((k', row) # rs) =
     (if k' = k then (k', f row) # rs else (k', row) # modify k f rs)"

text \<open>
  \<open>ntxidLookupAll\<close> returns pointers to the rows with the given \<open>ntxid\<close>, in iteration
  order: each is a node of the table, read through its second component and written
  through \<open>modify\<close> at its key.
\<close>

definition ntxidLookupAll :: "hash_digest \<Rightarrow> row_table \<Rightarrow> row_table" where
  "ntxidLookupAll n rs = filter (\<lambda>(k, row). ntxid row = n) rs"

subsection \<open>Queries\<close>

text \<open>
  \<open>ntxidLookup\<close> declares its result as \<open>bc::transaction_type tx;\<close>. That object is
  default-initialised: its two vectors are empty and its \<open>version\<close> and \<open>locktime\<close> hold
  no determined value until a row's transaction is assigned to it. The local is
  therefore either still \<open>default_initialised\<close> or \<open>assigned\<close> a transaction, and the
  function returns it in whichever of the two states the loop leaves it.
\<close>

datatype local_transaction = default_initialised | assigned transaction_type

fun ntxidLookup_loop :: "row_table \<Rightarrow> local_transaction \<Rightarrow> bool \<Rightarrow> local_transaction" where
  "ntxidLookup_loop [] t foundTx = t"
| "ntxidLookup_loop ((k, row) # txRows) t foundTx =
     (let t' = (if \<not> foundTx then assigned (tx row)
                else if confirmed = state row then assigned (tx row) else t)
      in if bMasterConfirm row then t' else ntxidLookup_loop txRows t' True)"

definition ntxidLookup :: "hash_digest \<Rightarrow> TxDatabase \<Rightarrow> local_transaction" where
  "ntxidLookup n db = ntxidLookup_loop (ntxidLookupAll n (rows db)) default_initialised False"

definition ntxidHeight_step :: "hash_digest \<times> TxRow \<Rightarrow> long_long \<Rightarrow> long_long" where
  "ntxidHeight_step = (\<lambda>(k, row) height.
     if confirmed = state row then
       (if sint height < sint (block_height row) then block_height row else height)
     else height)"

definition ntxidHeight :: "hash_digest \<Rightarrow> TxDatabase \<Rightarrow> error + long_long" where
  "ntxidHeight n db =
     (let txRows = ntxidLookupAll n (rows db) in
      if txRows = [] then Inl NotInDatabase
      else
        let height = fold ntxidHeight_step txRows 0;
            height' = (if 1 < length txRows \<and> height = 0 then - 1 else height)
        in Inr height')"

text \<open>\<open>foreach_forked\<close>: the keys handed to the callback, in order.\<close>

definition foreach_forked :: "TxDatabase \<Rightarrow> hash_digest list" where
  "foreach_forked db =
     map fst (filter (\<lambda>(k, row). state row = confirmed \<and> need_check row) (rows db))"

subsection \<open>The fork detector\<close>

text \<open>
  Both loops of \<open>check_fork\<close> are \<open>for (auto row: rows_)\<close>: \<open>row\<close> is a copy of the node.
  The first loop only reads. The second assigns \<open>need_check\<close> in the copy, which ends
  with the iteration; the copies are the list \<open>marked\<close> below, and the table keeps its
  rows. \<open>block_height\<close> is converted to \<open>size_t\<close> in the comparisons, which are unsigned.
\<close>

definition check_fork_prev :: "size_t \<Rightarrow> hash_digest \<times> TxRow \<Rightarrow> size_t \<Rightarrow> size_t" where
  "check_fork_prev height = (\<lambda>(k, row) prev_height.
     if state row = confirmed \<and> block_height row < height \<and> prev_height < block_height row
     then block_height row else prev_height)"

definition check_fork :: "size_t \<Rightarrow> TxDatabase \<Rightarrow> TxDatabase" where
  "check_fork height db =
     (let prev_height = fold (check_fork_prev height) (rows db) 0;
          marked = map (\<lambda>(k, row).
                     if state row = confirmed \<and> block_height row = prev_height
                     then (k, row\<lparr>need_check := True\<rparr>) else (k, row)) (rows db)
      in db)"

definition at_height :: "size_t \<Rightarrow> TxDatabase \<Rightarrow> TxDatabase" where
  "at_height height db = check_fork height (db\<lparr>last_height := height\<rparr>)"

subsection \<open>Mutations\<close>

text \<open>
  \<open>insert\<close>. The loop over the cluster carries the table and the three locals
  \<open>height\<close>, \<open>state\<close> and \<open>bMalleated\<close>. \<open>time(nullptr)\<close> is the parameter \<open>now\<close>.
\<close>

definition insert_step ::
  "hash_digest \<Rightarrow> hash_digest \<times> TxRow \<Rightarrow> row_table \<times> long_long \<times> TxState \<times> bool
     \<Rightarrow> row_table \<times> long_long \<times> TxState \<times> bool" where
  "insert_step txid' = (\<lambda>(k, row) (rs, height, st, mal).
     if txid' \<noteq> txid row
     then (modify k (\<lambda>r. r\<lparr>bMalleated := True\<rparr>) rs, block_height row, state row, True)
     else (rs, height, st, mal))"

definition insert_tx :: "codec \<Rightarrow> time_t \<Rightarrow> transaction_type \<Rightarrow> TxDatabase \<Rightarrow> bool \<times> TxDatabase" where
  "insert_tx c now t db =
     (let ntxid' = makeNtxid c t;
          txid' = hash_transaction c t
      in if map_of (rows db) txid' = None then
           (let txRows = ntxidLookupAll ntxid' (rows db);
                (rs, height, st, mal) =
                   fold (insert_step txid') txRows (rows db, 0, unconfirmed, False)
            in (True, db\<lparr>rows := rs @
                  [(txid', \<lparr>tx = t, txid = txid', ntxid = ntxid', state = st,
                           block_height = height, timestamp = now, bMalleated = mal,
                           bMasterConfirm = False, need_check = False\<rparr>)]\<rparr>))
         else (False, db))"

text \<open>
  \<open>confirmed\<close>. \<open>BITCOIN_ASSERT(it != rows_.end())\<close> fails on an unknown \<open>txid\<close>: the
  result is \<open>None\<close>. \<open>row\<close> is a reference to the node under \<open>txid\<close>.
\<close>

definition confirmed_step ::
  "hash_digest \<Rightarrow> long_long \<Rightarrow> hash_digest \<times> TxRow \<Rightarrow> row_table \<Rightarrow> row_table" where
  "confirmed_step txid' height = (\<lambda>(k, row) rs.
     if txid' \<noteq> txid row
     then modify txid' (\<lambda>r. r\<lparr>bMalleated := True\<rparr>)
            (modify k (\<lambda>r. r\<lparr>block_height := height, state := confirmed, bMalleated := True\<rparr>) rs)
     else rs)"

definition confirmed_tx :: "hash_digest \<Rightarrow> long_long \<Rightarrow> TxDatabase \<Rightarrow> TxDatabase option" where
  "confirmed_tx txid' height db =
     (case map_of (rows db) txid' of
        None \<Rightarrow> None
      | Some row \<Rightarrow>
          let db1 = (if state row = confirmed \<and> block_height row \<noteq> height
                     then check_fork (block_height row) db else db);
              txRows = ntxidLookupAll (ntxid row) (rows db1);
              rows1 = modify txid' (\<lambda>r. r\<lparr>state := confirmed, block_height := height,
                                          bMasterConfirm := True\<rparr>) (rows db1)
          in Some (db1\<lparr>rows := fold (confirmed_step txid' height) txRows rows1\<rparr>))"

text \<open>
  \<open>unconfirmed\<close>. The loop carries the table and the locals \<open>height\<close>, \<open>state\<close> and
  \<open>bMalleated\<close>; the row under \<open>txid\<close> is written after it. The call of \<open>check_fork\<close>
  stands inside the branch where the row was \<open>confirmed\<close>, under a test that the row,
  as the loop left it, is \<open>unconfirmed\<close>.
\<close>

definition unconfirmed_step ::
  "hash_digest \<Rightarrow> hash_digest \<times> TxRow \<Rightarrow> row_table \<times> long_long \<times> TxState \<times> bool
     \<Rightarrow> row_table \<times> long_long \<times> TxState \<times> bool" where
  "unconfirmed_step txid' = (\<lambda>(k, row) (rs, height, st, mal).
     if txid' \<noteq> txid row then
       (if bMasterConfirm row then (rs, block_height row, state row, mal)
        else (modify k (\<lambda>r. r\<lparr>block_height := - 1, state := unconfirmed, bMalleated := True\<rparr>) rs,
              - 1, st, True))
     else (rs, height, st, mal))"

definition unconfirmed_tx :: "hash_digest \<Rightarrow> TxDatabase \<Rightarrow> TxDatabase option" where
  "unconfirmed_tx txid' db =
     (case map_of (rows db) txid' of
        None \<Rightarrow> None
      | Some row \<Rightarrow>
          let (db1, height, st, mal) =
                (if state row = confirmed then
                   (let txRows = ntxidLookupAll (ntxid row) (rows db);
                        (rs, height, st, mal) =
                           fold (unconfirmed_step txid') txRows
                             (rows db, 0, unconfirmed, bMalleated row);
                        db' = db\<lparr>rows := rs\<rparr>;
                        db'' = (case map_of rs txid' of
                                  None \<Rightarrow> db'
                                | Some current \<Rightarrow>
                                    if unconfirmed = state current
                                    then check_fork (block_height current) db' else db')
                    in (db'', height, st, mal))
                 else (db, 0, unconfirmed, bMalleated row))
          in Some (db1\<lparr>rows := modify txid'
                     (\<lambda>r. r\<lparr>block_height := height, state := st, bMalleated := mal\<rparr>)
                     (rows db1)\<rparr>))"

text \<open>A call of the interface, and a run of calls from a database; an assertion
  failure ends the run.\<close>

datatype call =
    Insert time_t transaction_type
  | Confirmed hash_digest long_long
  | Unconfirmed hash_digest

fun perform :: "codec \<Rightarrow> call \<Rightarrow> TxDatabase \<Rightarrow> TxDatabase option" where
  "perform c (Insert now t) db = Some (snd (insert_tx c now t db))"
| "perform c (Confirmed k h) db = confirmed_tx k h db"
| "perform c (Unconfirmed k) db = unconfirmed_tx k db"

fun run :: "codec \<Rightarrow> call list \<Rightarrow> TxDatabase \<Rightarrow> TxDatabase option" where
  "run c [] db = Some db"
| "run c (x # xs) db = (case perform c x db of None \<Rightarrow> None | Some db' \<Rightarrow> run c xs db')"

text \<open>\<open>TxDatabase(unconfirmed_timeout)\<close>.\<close>

definition new_db :: "32 word \<Rightarrow> TxDatabase" where
  "new_db timeout = \<lparr>rows = [], last_height = 0, unconfirmed_timeout = timeout\<rparr>"

subsection \<open>The serializer\<close>

definition old_serial_magic :: "32 word" where
  "old_serial_magic = 0x3eab61c3"

definition serial_magic :: "32 word" where
  "serial_magic = 0xfecdb763"

definition serial_tx :: byte where
  "serial_tx = 0x42"

text \<open>Little-endian bytes of a word, and back (\<open>write_4_bytes\<close>, \<open>read_8_bytes\<close>, ...).\<close>

fun to_little_endian :: "nat \<Rightarrow> 'a::len word \<Rightarrow> data_chunk" where
  "to_little_endian 0 w = []"
| "to_little_endian (Suc n) w = ucast w # to_little_endian n (drop_bit 8 w)"

fun from_little_endian :: "data_chunk \<Rightarrow> 'a::len word" where
  "from_little_endian [] = 0"
| "from_little_endian (b # bs) = ucast b OR push_bit 8 (from_little_endian bs)"

definition write_4_bytes :: "32 word \<Rightarrow> data_chunk" where
  "write_4_bytes w = to_little_endian 4 w"

definition write_8_bytes :: "64 word \<Rightarrow> data_chunk" where
  "write_8_bytes w = to_little_endian 8 w"

definition write_hash :: "hash_digest \<Rightarrow> data_chunk" where
  "write_hash h = to_little_endian 32 h"

text \<open>\<open>write_byte\<close> of a \<open>bool\<close>, and the conversion of a byte read into a \<open>bool\<close>.\<close>

definition byte_of_bool :: "bool \<Rightarrow> byte" where
  "byte_of_bool b = (if b then 1 else 0)"

definition bool_of_byte :: "byte \<Rightarrow> bool" where
  "bool_of_byte b = (b \<noteq> 0)"

text \<open>
  The deserializer is the rest of the input. A read that needs more bytes than are
  left throws \<open>end_of_stream\<close>: \<open>None\<close>.
\<close>

definition read_bytes :: "nat \<Rightarrow> data_chunk \<Rightarrow> (data_chunk \<times> data_chunk) option" where
  "read_bytes n bs = (if length bs < n then None else Some (take n bs, drop n bs))"

definition read_byte :: "data_chunk \<Rightarrow> (byte \<times> data_chunk) option" where
  "read_byte bs = (case bs of [] \<Rightarrow> None | b # bs' \<Rightarrow> Some (b, bs'))"

definition read_4_bytes :: "data_chunk \<Rightarrow> (32 word \<times> data_chunk) option" where
  "read_4_bytes bs = map_option (\<lambda>(xs, rest). (from_little_endian xs, rest)) (read_bytes 4 bs)"

definition read_8_bytes :: "data_chunk \<Rightarrow> (64 word \<times> data_chunk) option" where
  "read_8_bytes bs = map_option (\<lambda>(xs, rest). (from_little_endian xs, rest)) (read_bytes 8 bs)"

definition read_hash :: "data_chunk \<Rightarrow> (hash_digest \<times> data_chunk) option" where
  "read_hash bs = map_option (\<lambda>(xs, rest). (from_little_endian xs, rest)) (read_bytes 32 bs)"

text \<open>
  \<open>serialize\<close>. The purge test adds an \<open>unsigned\<close> to a \<open>time_t\<close> and compares signed
  values; the sum is taken in the integers (its overflow is undefined in the source).
\<close>

definition purged :: "time_t \<Rightarrow> 32 word \<Rightarrow> TxRow \<Rightarrow> bool" where
  "purged now timeout row =
     (sint (timestamp row) + uint timeout < sint now \<and> unconfirmed = state row)"

definition serialize_row :: "codec \<Rightarrow> hash_digest \<times> TxRow \<Rightarrow> data_chunk" where
  "serialize_row c = (\<lambda>(k, row).
     let height = (if unconfirmed = state row then timestamp row else block_height row)
     in [serial_tx] @ write_hash k @ satoshi_save c (tx row) @ [state row]
        @ write_8_bytes height @ [byte_of_bool (need_check row)]
        @ write_hash (txid row) @ write_hash (ntxid row)
        @ [byte_of_bool (bMalleated row)] @ [byte_of_bool (bMasterConfirm row)])"

definition serialize :: "codec \<Rightarrow> time_t \<Rightarrow> TxDatabase \<Rightarrow> data_chunk" where
  "serialize c now db =
     write_4_bytes serial_magic @ write_8_bytes (last_height db)
     @ concat (map (serialize_row c)
         (filter (\<lambda>(k, row). \<not> purged now (unconfirmed_timeout db) row) (rows db)))"

text \<open>
  \<open>load\<close>. One pass of the loop reads a record: it yields the node and the rest of the
  input, or throws \<open>end_of_stream\<close>, or returns the error for an unknown entry. After
  \<open>satoshi_load\<close> the iterator is moved by \<open>satoshi_raw_size\<close>; moving it past the end
  of the input is undefined, and kept apart as \<open>past_the_end\<close>.
\<close>

datatype row_result =
    Row "hash_digest \<times> TxRow" data_chunk
  | end_of_stream
  | unknown_entry
  | past_the_end

definition read_row_head ::
  "codec \<Rightarrow> data_chunk \<Rightarrow> (hash_digest \<times> transaction_type \<times> data_chunk) option" where
  "read_row_head c bs = do {
     (h, bs1) \<leftarrow> read_hash bs;
     t \<leftarrow> satoshi_load c bs1;
     Some (h, t, bs1)
   }"

definition read_row_tail ::
  "time_t \<Rightarrow> hash_digest \<Rightarrow> transaction_type \<Rightarrow> data_chunk
     \<Rightarrow> ((hash_digest \<times> TxRow) \<times> data_chunk) option" where
  "read_row_tail now h t bs = do {
     (st, bs1) \<leftarrow> read_byte bs;
     (height, bs2) \<leftarrow> read_8_bytes bs1;
     (nc, bs3) \<leftarrow> read_byte bs2;
     (txid', bs4) \<leftarrow> read_hash bs3;
     (ntxid', bs5) \<leftarrow> read_hash bs4;
     (mal, bs6) \<leftarrow> read_byte bs5;
     (mc, bs7) \<leftarrow> read_byte bs6;
     Some ((h, \<lparr>tx = t, txid = txid', ntxid = ntxid', state = st, block_height = height,
                timestamp = (if unconfirmed = st then height else now),
                bMalleated = bool_of_byte mal, bMasterConfirm = bool_of_byte mc,
                need_check = bool_of_byte nc\<rparr>), bs7)
   }"

definition read_row :: "codec \<Rightarrow> time_t \<Rightarrow> data_chunk \<Rightarrow> row_result" where
  "read_row c now bs =
     (case read_byte bs of
        None \<Rightarrow> end_of_stream
      | Some (kind, bs0) \<Rightarrow>
          if kind \<noteq> serial_tx then unknown_entry
          else (case read_row_head c bs0 of
                  None \<Rightarrow> end_of_stream
                | Some (h, t, bs1) \<Rightarrow>
                    if length bs1 < satoshi_raw_size c t then past_the_end
                    else (case read_row_tail now h t (drop (satoshi_raw_size c t) bs1) of
                            None \<Rightarrow> end_of_stream
                          | Some (node, rest) \<Rightarrow> Row node rest)))"

text \<open>\<open>rows[hash] = std::move(row)\<close>: the node under the key is replaced, or a new one
  is created.\<close>

definition assign :: "hash_digest \<times> TxRow \<Rightarrow> row_table \<Rightarrow> row_table" where
  "assign = (\<lambda>(k, row) rs.
     if map_of rs k = None then rs @ [(k, row)] else modify k (\<lambda>_. row) rs)"

lemma read_byte_length: "read_byte bs = Some (b, rest) \<Longrightarrow> length bs = Suc (length rest)"
  by (auto simp: read_byte_def split: list.splits)

lemma read_bytes_length: "read_bytes n bs = Some (xs, rest) \<Longrightarrow> length bs = n + length rest"
  by (auto simp: read_bytes_def split: if_splits)

lemma read_8_bytes_length: "read_8_bytes bs = Some (w, rest) \<Longrightarrow> length bs = 8 + length rest"
  by (auto simp: read_8_bytes_def dest: read_bytes_length)

lemma read_4_bytes_length: "read_4_bytes bs = Some (w, rest) \<Longrightarrow> length bs = 4 + length rest"
  by (auto simp: read_4_bytes_def dest: read_bytes_length)

lemma read_hash_length: "read_hash bs = Some (w, rest) \<Longrightarrow> length bs = 32 + length rest"
  by (auto simp: read_hash_def dest: read_bytes_length)

lemma read_row_tail_length:
  "read_row_tail now h t bs = Some (node, rest) \<Longrightarrow> length bs = 76 + length rest"
  by (auto simp: read_row_tail_def split: Option.bind_splits
      dest!: read_byte_length read_8_bytes_length read_hash_length)

lemma read_row_head_length:
  "read_row_head c bs = Some (h, t, bs1) \<Longrightarrow> length bs = 32 + length bs1"
  by (auto simp: read_row_head_def split: Option.bind_splits dest!: read_hash_length)

lemma read_row_shorter:
  assumes "read_row c now bs = Row node rest"
  shows "length rest < length bs"
proof -
  from assms obtain bs0 h t bs1 where
    b: "read_byte bs = Some (serial_tx, bs0)" and
    h: "read_row_head c bs0 = Some (h, t, bs1)" and
    t: "read_row_tail now h t (drop (satoshi_raw_size c t) bs1) = Some (node, rest)"
    by (auto simp: read_row_def split: option.splits if_splits)
  from read_byte_length [OF b] read_row_head_length [OF h] read_row_tail_length [OF t]
  show ?thesis by simp
qed

text \<open>The loop \<open>while (serial.iterator() != data.end())\<close>; \<open>None\<close> is undefined
  behaviour.\<close>

function load_rows ::
  "codec \<Rightarrow> time_t \<Rightarrow> data_chunk \<Rightarrow> row_table \<Rightarrow> (error + row_table) option" where
  "load_rows c now bs rs =
     (if bs = [] then Some (Inr rs)
      else (case read_row c now bs of
              Row node rest \<Rightarrow> load_rows c now rest (assign node rs)
            | end_of_stream \<Rightarrow> Some (Inl Truncated)
            | unknown_entry \<Rightarrow> Some (Inl UnknownRecord)
            | past_the_end \<Rightarrow> None))"
  by pat_completeness auto
termination
  by (relation "measure (\<lambda>(c, now, bs, rs). length bs)") (auto dest: read_row_shorter)

declare load_rows.simps [simp del]

text \<open>
  \<open>load\<close> returns the status (\<open>None\<close> for success) and the database after the call; the
  outer \<open>None\<close> is undefined behaviour.
\<close>

definition load ::
  "codec \<Rightarrow> time_t \<Rightarrow> data_chunk \<Rightarrow> TxDatabase \<Rightarrow> (error option \<times> TxDatabase) option" where
  "load c now data db =
     (case read_4_bytes data of
        None \<Rightarrow> Some (Some Truncated, db)
      | Some (magic, bs1) \<Rightarrow>
          if serial_magic \<noteq> magic
          then Some (Some (if old_serial_magic = magic then OutdatedFormat else UnknownHeader), db)
          else (case read_8_bytes bs1 of
                  None \<Rightarrow> Some (Some Truncated, db)
                | Some (height, bs2) \<Rightarrow>
                    (case load_rows c now bs2 [] of
                       None \<Rightarrow> None
                     | Some (Inl e) \<Rightarrow> Some (Some e, db)
                     | Some (Inr rs) \<Rightarrow> Some (None, db\<lparr>last_height := height, rows := rs\<rparr>))))"

text \<open>
  What a row is after it has been saved and loaded at time \<open>now\<close>: the field written
  between \<open>state\<close> and \<open>need_check\<close> comes back as \<open>block_height\<close>, and as \<open>timestamp\<close>
  too when the row is unconfirmed; the \<open>timestamp\<close> of any other row is the time of
  loading.
\<close>

definition reloaded :: "time_t \<Rightarrow> TxRow \<Rightarrow> TxRow" where
  "reloaded now row =
     row\<lparr>block_height := (if unconfirmed = state row then timestamp row else block_height row),
         timestamp := (if unconfirmed = state row then timestamp row else now)\<rparr>"

text \<open>
  The contract of the codec on a transaction: \<open>satoshi_load\<close> reads back what
  \<open>satoshi_save\<close> wrote, whatever follows it, and \<open>satoshi_raw_size\<close> is the number of
  bytes written.
\<close>

definition codec_exact :: "codec \<Rightarrow> transaction_type \<Rightarrow> bool" where
  "codec_exact c t \<longleftrightarrow>
     (\<forall>rest. satoshi_load c (satoshi_save c t @ rest) = Some t)
     \<and> satoshi_raw_size c t = length (satoshi_save c t)"

text \<open>
  The record grammar of the snapshot, on the bytes of the input alone. A record is the
  kind byte \<open>0x42\<close>, a key of 32 bytes, a transaction in the wire format of the codec
  and 76 more bytes: the state (1), the height (8), \<open>need_check\<close> (1), the \<open>txid\<close> (32),
  the \<open>ntxid\<close> (32) and the two flags (1 each).

  \<open>whole_record c bs rest\<close>: the input \<open>bs\<close> begins with a record, all of whose bytes are
  there, and \<open>rest\<close> is what follows it. \<open>cut_record c bs\<close>: the input \<open>bs\<close> begins a
  record with the kind byte and ends inside it, within the key, within the transaction
  (the codec meets the end of the input), or within the 76 bytes after the transaction.
  \<open>records_then c bs rem\<close>: \<open>bs\<close> is a run of whole records followed by \<open>rem\<close>.

  The magic of a blob is its first four bytes, and the status of \<open>load\<close> its first
  result.
\<close>

definition whole_record :: "codec \<Rightarrow> data_chunk \<Rightarrow> data_chunk \<Rightarrow> bool" where
  "whole_record c bs rest \<longleftrightarrow>
     bs \<noteq> [] \<and> hd bs = serial_tx \<and> 33 \<le> length bs
     \<and> (case satoshi_load c (drop 33 bs) of
          None \<Rightarrow> False
        | Some t \<Rightarrow> 33 + satoshi_raw_size c t + 76 \<le> length bs
                    \<and> rest = drop (33 + satoshi_raw_size c t + 76) bs)"

definition cut_record :: "codec \<Rightarrow> data_chunk \<Rightarrow> bool" where
  "cut_record c bs \<longleftrightarrow>
     bs \<noteq> [] \<and> hd bs = serial_tx
     \<and> (length bs < 33
        \<or> (case satoshi_load c (drop 33 bs) of
             None \<Rightarrow> True
           | Some t \<Rightarrow> 33 + satoshi_raw_size c t \<le> length bs
                       \<and> length bs < 33 + satoshi_raw_size c t + 76))"

inductive records_then :: "codec \<Rightarrow> data_chunk \<Rightarrow> data_chunk \<Rightarrow> bool"
  for c :: codec where
  stop: "records_then c bs bs"
| whole: "whole_record c bs rest \<Longrightarrow> records_then c rest rem \<Longrightarrow> records_then c bs rem"

definition magic :: "data_chunk \<Rightarrow> 32 word" where
  "magic data = from_little_endian (take 4 data)"

definition load_status :: "codec \<Rightarrow> time_t \<Rightarrow> data_chunk \<Rightarrow> TxDatabase \<Rightarrow> error option option" where
  "load_status c now data db = map_option fst (load c now data db)"

subsection \<open>The double-spend filter\<close>

text \<open>
  \<open>TxFilter::isSafe\<close> with its memo table \<open>visited_\<close>, which the call takes and returns.
  The function calls itself for the source of every input, and the table is written
  only when a call returns; the first argument bounds the depth of the calls, and
  \<open>None\<close> is a recursion deeper than that. \<open>doubleSpends_\<close> is a set of outpoints and
  \<open>cache_.rows_\<close> the table of the snapshot.
\<close>

type_synonym memo = "hash_digest \<rightharpoonup> bool"

fun isSafe ::
  "nat \<Rightarrow> row_table \<Rightarrow> point_type set \<Rightarrow> hash_digest \<Rightarrow> memo \<Rightarrow> (bool \<times> memo) option"
and isSafe_inputs ::
  "nat \<Rightarrow> row_table \<Rightarrow> point_type set \<Rightarrow> transaction_input_type list \<Rightarrow> memo
     \<Rightarrow> (bool \<times> memo) option"
where
  "isSafe 0 rs ds t visited = None"
| "isSafe (Suc n) rs ds t visited =
     (case visited t of
        Some b \<Rightarrow> Some (b, visited)
      | None \<Rightarrow>
          (case map_of rs t of
             None \<Rightarrow> Some (True, visited(t \<mapsto> True))
           | Some row \<Rightarrow>
               if confirmed = state row then Some (True, visited(t \<mapsto> True))
               else (case isSafe_inputs n rs ds (inputs (tx row)) visited of
                       None \<Rightarrow> None
                     | Some (b, visited') \<Rightarrow> Some (b, visited'(t \<mapsto> b)))))"
| "isSafe_inputs n rs ds [] visited = Some (True, visited)"
| "isSafe_inputs n rs ds (input # rest) visited =
     (if previous_output input \<in> ds then Some (False, visited)
      else (case isSafe n rs ds (hash (previous_output input)) visited of
              None \<Rightarrow> None
            | Some (b, visited') \<Rightarrow>
                if \<not> b then Some (False, visited')
                else isSafe_inputs n rs ds rest visited'))"

text \<open>Calls of \<open>isSafe\<close> one after the other on one \<open>TxFilter\<close>: the table they leave.\<close>

fun populate :: "nat \<Rightarrow> row_table \<Rightarrow> point_type set \<Rightarrow> hash_digest list \<Rightarrow> memo \<Rightarrow> memo option" where
  "populate n rs ds [] visited = Some visited"
| "populate n rs ds (t # ts) visited =
     (case isSafe n rs ds t visited of
        None \<Rightarrow> None
      | Some (b, visited') \<Rightarrow> populate n rs ds ts visited')"

text \<open>
  The reference of section 4.2: a transaction is unsafe when its row is stored and not
  confirmed and one of its inputs spends a contested outpoint or comes from an unsafe
  transaction. A transaction is safe when it is not unsafe.
\<close>

inductive unsafe :: "row_table \<Rightarrow> point_type set \<Rightarrow> hash_digest \<Rightarrow> bool"
  for rs :: row_table and ds :: "point_type set" where
  double_spend:
    "map_of rs t = Some row \<Longrightarrow> state row \<noteq> confirmed \<Longrightarrow> input \<in> set (inputs (tx row))
     \<Longrightarrow> previous_output input \<in> ds \<Longrightarrow> unsafe rs ds t"
| unsafe_source:
    "map_of rs t = Some row \<Longrightarrow> state row \<noteq> confirmed \<Longrightarrow> input \<in> set (inputs (tx row))
     \<Longrightarrow> unsafe rs ds (hash (previous_output input)) \<Longrightarrow> unsafe rs ds t"

text \<open>The edges of the transaction graph that \<open>isSafe\<close> follows: from the source of an
  input to the unconfirmed transaction that spends it.\<close>

definition sources :: "row_table \<Rightarrow> (hash_digest \<times> hash_digest) set" where
  "sources rs = {(s, t). \<exists>row input. map_of rs t = Some row \<and> state row \<noteq> confirmed
     \<and> input \<in> set (inputs (tx row)) \<and> s = hash (previous_output input)}"

text \<open>A memo table that agrees with the reference.\<close>

definition sound :: "row_table \<Rightarrow> point_type set \<Rightarrow> memo \<Rightarrow> bool" where
  "sound rs ds visited \<longleftrightarrow> (\<forall>t b. visited t = Some b \<longrightarrow> b = (\<not> unsafe rs ds t))"

subsection \<open>The mutations, row by row\<close>

text \<open>
  What a loop over a cluster does to the table is written as one function applied to
  every node: \<open>pointwise g\<close> replaces the row under each key \<open>k\<close> by \<open>g k\<close> of it.
\<close>

definition pointwise :: "(hash_digest \<Rightarrow> TxRow \<Rightarrow> TxRow) \<Rightarrow> row_table \<Rightarrow> row_table" where
  "pointwise g rs = map (\<lambda>(k, r). (k, g k r)) rs"

text \<open>The keys of the rows that a loop with the test \<open>txid != (*i)->txid\<close> acts on, and of
  those among them without \<open>bMasterConfirm\<close>.\<close>

definition sibling_keys :: "hash_digest \<Rightarrow> row_table \<Rightarrow> hash_digest set" where
  "sibling_keys t xs = fst ` {x \<in> set xs. txid (snd x) \<noteq> t}"

definition demoted_keys :: "hash_digest \<Rightarrow> row_table \<Rightarrow> hash_digest set" where
  "demoted_keys t xs = fst ` {x \<in> set xs. txid (snd x) \<noteq> t \<and> \<not> bMasterConfirm (snd x)}"

text \<open>Whether the cluster \<open>n\<close> holds a row whose \<open>txid\<close> is not \<open>t\<close>.\<close>

definition has_sibling :: "hash_digest \<Rightarrow> hash_digest \<Rightarrow> row_table \<Rightarrow> bool" where
  "has_sibling n t rs = (\<exists>(k, r) \<in> set rs. ntxid r = n \<and> txid r \<noteq> t)"

text \<open>The row-wise effect of \<open>insert\<close> on the rows already stored, the row it creates, and
  the row-wise effects of \<open>confirmed\<close> and \<open>unconfirmed\<close>.\<close>

definition insert_mark :: "hash_digest \<Rightarrow> hash_digest \<Rightarrow> hash_digest \<Rightarrow> TxRow \<Rightarrow> TxRow" where
  "insert_mark n t = (\<lambda>k r. if ntxid r = n \<and> txid r \<noteq> t then r\<lparr>bMalleated := True\<rparr> else r)"

definition new_row ::
  "codec \<Rightarrow> time_t \<Rightarrow> transaction_type \<Rightarrow> long_long \<Rightarrow> TxState \<Rightarrow> bool \<Rightarrow> TxRow" where
  "new_row c now x H S M =
     \<lparr>tx = x, txid = hash_transaction c x, ntxid = makeNtxid c x, state = S,
      block_height = H, timestamp = now, bMalleated = M,
      bMasterConfirm = False, need_check = False\<rparr>"

definition confirmed_row ::
  "hash_digest \<Rightarrow> long_long \<Rightarrow> hash_digest \<Rightarrow> bool \<Rightarrow> hash_digest \<Rightarrow> TxRow \<Rightarrow> TxRow" where
  "confirmed_row t h n sib = (\<lambda>k r.
     let r1 = (if k = t then r\<lparr>state := confirmed, block_height := h, bMasterConfirm := True\<rparr> else r);
         r2 = (if ntxid r = n \<and> txid r \<noteq> t
               then r1\<lparr>block_height := h, state := confirmed, bMalleated := True\<rparr> else r1)
     in if k = t \<and> sib then r2\<lparr>bMalleated := True\<rparr> else r2)"

definition unconfirmed_row ::
  "hash_digest \<Rightarrow> TxRow \<Rightarrow> long_long \<Rightarrow> TxState \<Rightarrow> bool \<Rightarrow> hash_digest \<Rightarrow> TxRow \<Rightarrow> TxRow" where
  "unconfirmed_row t row H S M = (\<lambda>k r.
     let r1 = (if state row = confirmed \<and> ntxid r = ntxid row \<and> txid r \<noteq> t \<and> \<not> bMasterConfirm r
               then r\<lparr>block_height := - 1, state := unconfirmed, bMalleated := True\<rparr> else r)
     in if k = t then r1\<lparr>block_height := H, state := S, bMalleated := M\<rparr> else r1)"

subsection \<open>Invariants of a run\<close>

text \<open>Two rows under different keys with one \<open>ntxid\<close> are both marked malleated.\<close>

definition cluster_marked :: "row_table \<Rightarrow> bool" where
  "cluster_marked rs \<longleftrightarrow>
     (\<forall>(k1, r1) \<in> set rs. \<forall>(k2, r2) \<in> set rs.
        k1 \<noteq> k2 \<and> ntxid r1 = ntxid r2 \<longrightarrow> bMalleated r1 \<and> bMalleated r2)"

text \<open>Unique keys, every row under its own \<open>txid\<close>, and clusters marked.\<close>

definition consistent :: "row_table \<Rightarrow> bool" where
  "consistent rs \<longleftrightarrow> distinct (map fst rs) \<and> (\<forall>(k, r) \<in> set rs. txid r = k) \<and> cluster_marked rs"

text \<open>The rows with \<open>bMasterConfirm\<close> are those under the keys \<open>S\<close>.\<close>

definition masters :: "hash_digest set \<Rightarrow> row_table \<Rightarrow> bool" where
  "masters S rs \<longleftrightarrow>
     distinct (map fst rs) \<and> (\<forall>(k, r) \<in> set rs. bMasterConfirm r \<longleftrightarrow> k \<in> S) \<and> S \<subseteq> fst ` set rs"

subsection \<open>A codec for the scenarios\<close>

text \<open>
  A small codec for the concrete scenarios: a transaction's \<open>txid\<close> is its version, its
  \<open>ntxid\<close> its lock time, and its wire format the eight bytes of the two (so it is
  exact on the transactions without inputs and outputs).
\<close>

definition toy_codec :: codec where
  "toy_codec = \<lparr>
     hash_transaction = (\<lambda>t. ucast (version t)),
     makeNtxid = (\<lambda>t. ucast (locktime t)),
     satoshi_save = (\<lambda>t. write_4_bytes (version t) @ write_4_bytes (locktime t)),
     satoshi_load = (\<lambda>bs. do {
        (v, bs1) \<leftarrow> read_4_bytes bs;
        (l, bs2) \<leftarrow> read_4_bytes bs1;
        Some \<lparr>version = v, locktime = l, inputs = [], outputs = []\<rparr> }),
     satoshi_raw_size = (\<lambda>t. 8)\<rparr>"

definition toy_tx :: "32 word \<Rightarrow> 32 word \<Rightarrow> transaction_type" where
  "toy_tx v l = \<lparr>version = v, locktime = l, inputs = [], outputs = []\<rparr>"

definition toy_row ::
  "32 word \<Rightarrow> 32 word \<Rightarrow> TxState \<Rightarrow> long_long \<Rightarrow> bool \<Rightarrow> bool \<Rightarrow> TxRow" where
  "toy_row v l st h mal mc =
     \<lparr>tx = toy_tx v l, txid = ucast v, ntxid = ucast l, state = st, block_height = h,
      timestamp = 1000, bMalleated = mal, bMasterConfirm = mc, need_check = False\<rparr>"

text \<open>Scenario S3: two transactions with one \<open>ntxid\<close>, the first then confirmed at 500.\<close>

definition malleated_pair :: TxDatabase where
  "malleated_pair =
     \<lparr>rows = [(1, toy_row 1 7 confirmed 500 True True), (2, toy_row 2 7 confirmed 500 True False)],
      last_height = 0, unconfirmed_timeout = 60\<rparr>"

text \<open>The same pair, the first confirmed in the genesis block (height 0).\<close>

definition genesis_cluster :: "TxDatabase option" where
  "genesis_cluster =
     run toy_codec [Insert 1000 (toy_tx 1 7), Insert 1001 (toy_tx 2 7), Confirmed 1 0] (new_db 60)"

text \<open>The pair after the transaction iterated second was confirmed and then unconfirmed
  again: both rows unconfirmed with the sentinel height, the second row still with
  \<open>master_confirm\<close>.\<close>

definition demoted_pair :: TxDatabase where
  "demoted_pair =
     \<lparr>rows = [(2, toy_row 2 7 unconfirmed (- 1) True False),
              (1, toy_row 1 7 unconfirmed (- 1) True True)],
      last_height = 0, unconfirmed_timeout = 60\<rparr>"

text \<open>Scenario S4: a transaction confirmed at height 95.\<close>

definition fork_scenario :: "TxDatabase option" where
  "fork_scenario = run toy_codec [Insert 1000 (toy_tx 3 9), Confirmed 3 95] (new_db 60)"

text \<open>Stations of scenario S3: the database before the second insert, and before the
  confirmation.\<close>

definition single_confirmed :: TxDatabase where
  "single_confirmed =
     \<lparr>rows = [(1, toy_row 1 7 confirmed 500 False True)], last_height = 0, unconfirmed_timeout = 60\<rparr>"

definition inserted_pair :: TxDatabase where
  "inserted_pair =
     \<lparr>rows = [(1, toy_row 1 7 unconfirmed 0 True False), (2, toy_row 2 7 unconfirmed 0 True False)],
      last_height = 0, unconfirmed_timeout = 60\<rparr>"

text \<open>The same two rows with the table iterating them in the other order.\<close>

definition inserted_pair_swapped :: TxDatabase where
  "inserted_pair_swapped =
     \<lparr>rows = [(2, toy_row 2 7 unconfirmed 0 True False), (1, toy_row 1 7 unconfirmed 0 True False)],
      last_height = 0, unconfirmed_timeout = 60\<rparr>"

definition s3_calls :: "call list" where
  "s3_calls = [Insert 1000 (toy_tx 1 7), Insert 1000 (toy_tx 2 7), Confirmed 1 500]"

text \<open>A cluster without \<open>master_confirm\<close> whose second row is confirmed.\<close>

definition late_confirmed :: TxDatabase where
  "late_confirmed =
     \<lparr>rows = [(1, toy_row 1 7 unconfirmed 0 True False), (2, toy_row 2 7 confirmed 500 True False)],
      last_height = 0, unconfirmed_timeout = 60\<rparr>"

text \<open>Scenario S3 followed by the confirmation of the second transaction.\<close>

definition two_masters :: "TxDatabase option" where
  "two_masters = run toy_codec (s3_calls @ [Confirmed 2 501]) (new_db 60)"

text \<open>
  Scenario S2: A (key 1) is spent by B1 (key 2) and by B2 (key 3), and C (key 4) spends
  B1; the outpoint A:0 is contested. And a row that spends its own output.
\<close>

definition spend :: "hash_digest \<Rightarrow> transaction_input_type" where
  "spend h = \<lparr>previous_output = \<lparr>hash = h, index = 0\<rparr>, input_script = [], sequence = 0\<rparr>"

definition graph_row :: "hash_digest \<Rightarrow> hash_digest list \<Rightarrow> TxRow" where
  "graph_row k srcs =
     \<lparr>tx = \<lparr>version = 1, locktime = 0, inputs = map spend srcs, outputs = []\<rparr>,
      txid = k, ntxid = k, state = unconfirmed, block_height = 0, timestamp = 1000,
      bMalleated = False, bMasterConfirm = False, need_check = False\<rparr>"

definition poisoned :: row_table where
  "poisoned = [(1, graph_row 1 []), (2, graph_row 2 [1]), (3, graph_row 3 [1]), (4, graph_row 4 [2])]"

definition contested :: "point_type set" where
  "contested = {\<lparr>hash = 1, index = 0\<rparr>}"

definition self_spend :: row_table where
  "self_spend = [(1, graph_row 1 [1])]"

text \<open>Scenario S5 beside a confirmed row, the legacy magic, and a snapshot cut inside its
  first record.\<close>

definition stale_and_confirmed :: TxDatabase where
  "stale_and_confirmed =
     \<lparr>rows = [(1, toy_row 1 7 confirmed 500 True True), (3, toy_row 3 9 unconfirmed 0 False False)],
      last_height = 100, unconfirmed_timeout = 60\<rparr>"

definition outdated_blob :: data_chunk where
  "outdated_blob = [0xc3, 0x61, 0xab, 0x3e]"

definition cut_blob :: data_chunk where
  "cut_blob = [0x63, 0xb7, 0xcd, 0xfe, 100, 0, 0, 0, 0, 0, 0, 0, 0x42, 1, 2, 3]"

text \<open>The snapshot of the pair of scenario S3 without its last byte: a whole record,
  then a record that ends inside its last 76 bytes.\<close>

definition cut_tail_blob :: data_chunk where
  "cut_tail_blob = butlast (serialize toy_codec 3000 malleated_pair)"

section \<open>Properties\<close>

subsection \<open>Row access\<close>

lemma check_fork_id: "check_fork height db = db"
  by (simp add: check_fork_def Let_def)

lemma map_of_modify:
  "map_of (modify k f rs) k' = (if k' = k then map_option f (map_of rs k) else map_of rs k')"
  by (induction rs) auto

lemma keys_modify: "map fst (modify k f rs) = map fst rs"
  by (induction rs) auto

lemma modify_cong_row:
  "map_of rs k = Some row \<Longrightarrow> f row = g row \<Longrightarrow> modify k f rs = modify k g rs"
  by (induction rs) (auto split: if_splits)

subsection \<open>The fork detector\<close>

text \<open>
  C2 (the code departs from the claim). \<open>at_height\<close> leaves every row as it was, for
  every database and height: the detector finds \<open>prev_height\<close> but sets \<open>need_check\<close>
  in copies of the rows. In scenario S4 (A confirmed at 95, then \<open>at_height(100)\<close>) the
  row of A keeps \<open>need_check = false\<close> and \<open>foreach_forked\<close> calls its callback on
  nothing, where the claim has it yield the \<open>txid\<close> of A.
\<close>

theorem check_fork_marks_nothing:
  "rows (at_height height db) = rows db
   \<and> map_option (\<lambda>db. foreach_forked (at_height 100 db)) fork_scenario = Some []
   \<and> map_option (\<lambda>db. map (\<lambda>(k, row). (k, state row, block_height row, need_check row)) (rows db))
        fork_scenario = Some [(3, confirmed, 95, False)]"
proof -
  have "rows (at_height height db) = rows db"
    by (simp add: at_height_def check_fork_id)
  moreover have "map_option (\<lambda>db. foreach_forked (at_height 100 db)) fork_scenario = Some []"
    unfolding fork_scenario_def by code_simp
  moreover have "map_option (\<lambda>db. map (\<lambda>(k, row). (k, state row, block_height row, need_check row)) (rows db))
        fork_scenario = Some [(3, confirmed, 95, False)]"
    unfolding fork_scenario_def by code_simp
  ultimately show ?thesis by simp
qed

subsection \<open>Demoting a row that is not confirmed\<close>

text \<open>
  C10. For a row stored under \<open>txid\<close> whose state is \<open>unconfirmed\<close>, whatever its
  \<open>block_height\<close> (the sentinel \<open>-1\<close> included), \<open>unconfirmed(txid)\<close> returns and
  changes nothing but that row's \<open>block_height\<close>, which becomes 0: the row keeps its
  state and its \<open>malleated\<close> and \<open>master_confirm\<close> flags, and every other row is as
  it was.
\<close>

theorem unconfirmed_again_clears_height:
  assumes "map_of (rows db) t = Some row" and "state row = unconfirmed"
  shows "unconfirmed_tx t db = Some (db\<lparr>rows := modify t (\<lambda>r. r\<lparr>block_height := 0\<rparr>) (rows db)\<rparr>)
     \<and> map_of (modify t (\<lambda>r. r\<lparr>block_height := 0\<rparr>) (rows db)) t = Some (row\<lparr>block_height := 0\<rparr>)
     \<and> (\<forall>k. k \<noteq> t \<longrightarrow> map_of (modify t (\<lambda>r. r\<lparr>block_height := 0\<rparr>) (rows db)) k = map_of (rows db) k)"
proof -
  have ne: "state row \<noteq> confirmed"
    using assms(2) by (simp add: unconfirmed_def confirmed_def)
  have "modify t (\<lambda>r. r\<lparr>block_height := 0, state := unconfirmed, bMalleated := bMalleated row\<rparr>) (rows db)
      = modify t (\<lambda>r. r\<lparr>block_height := 0\<rparr>) (rows db)"
    by (rule modify_cong_row [OF assms(1)]) (simp add: assms(2) [symmetric])
  then have "unconfirmed_tx t db = Some (db\<lparr>rows := modify t (\<lambda>r. r\<lparr>block_height := 0\<rparr>) (rows db)\<rparr>)"
    using assms(1) ne by (simp add: unconfirmed_tx_def)
  then show ?thesis
    using assms(1) by (simp add: map_of_modify)
qed

theorem unconfirmed_again_clears_height_witness:
  "map_of (rows demoted_pair) 2 = Some (toy_row 2 7 unconfirmed (- 1) True False)
   \<and> unconfirmed_tx 2 demoted_pair =
       Some \<lparr>rows = [(2, toy_row 2 7 unconfirmed 0 True False),
                     (1, toy_row 1 7 unconfirmed (- 1) True True)],
             last_height = 0, unconfirmed_timeout = 60\<rparr>"
proof -
  have h: "map_of (rows demoted_pair) 2 = Some (toy_row 2 7 unconfirmed (- 1) True False)"
    by (simp add: demoted_pair_def)
  have s: "state (toy_row 2 7 unconfirmed (- 1) True False) = unconfirmed"
    by (simp add: toy_row_def)
  from unconfirmed_again_clears_height [OF h s]
  have "unconfirmed_tx 2 demoted_pair =
      Some (demoted_pair\<lparr>rows := modify 2 (\<lambda>r. r\<lparr>block_height := 0\<rparr>) (rows demoted_pair)\<rparr>)"
    by simp
  with h show ?thesis
    by (simp add: demoted_pair_def toy_row_def)
qed

subsection \<open>Heights and lookups by ntxid\<close>

lemma fold_ntxidHeight_step:
  "(fold ntxidHeight_step xs a = a \<or>
      (\<exists>(k, row) \<in> set xs. state row = confirmed \<and> block_height row = fold ntxidHeight_step xs a))
   \<and> sint a \<le> sint (fold ntxidHeight_step xs a)
   \<and> (\<forall>(k, row) \<in> set xs. state row = confirmed \<longrightarrow>
         sint (block_height row) \<le> sint (fold ntxidHeight_step xs a))"
proof (induction xs arbitrary: a)
  case Nil
  then show ?case by simp
next
  case (Cons x xs)
  obtain k row where x: "x = (k, row)" by (cases x)
  let ?b = "ntxidHeight_step x a"
  have b: "sint a \<le> sint ?b" "state row = confirmed \<longrightarrow> sint (block_height row) \<le> sint ?b"
    "?b = a \<or> (state row = confirmed \<and> block_height row = ?b)"
    by (auto simp: x ntxidHeight_step_def)
  from Cons.IH [of ?b] b show ?case
    by (fastforce simp: x)
qed

text \<open>
  C4, as amended. \<open>ntxidHeight\<close> fails with \<open>NotInDatabase\<close> exactly when no row has the
  \<open>ntxid\<close>. Otherwise it returns: the greatest \<open>block_height\<close> of the confirmed rows of
  the cluster when some confirmed row has a positive height; if none has, \<open>-1\<close> when
  the cluster has more than one row, and 0 when it has one.
\<close>

theorem ntxidHeight_result:
  "(ntxidHeight n db = Inl NotInDatabase \<longleftrightarrow> ntxidLookupAll n (rows db) = [])
   \<and> (ntxidLookupAll n (rows db) \<noteq> [] \<longrightarrow>
        (\<exists>h. ntxidHeight n db = Inr h \<and>
          (if \<exists>(k, row) \<in> set (ntxidLookupAll n (rows db)).
                 state row = confirmed \<and> 0 < sint (block_height row)
           then (\<exists>(k, row) \<in> set (ntxidLookupAll n (rows db)).
                   state row = confirmed \<and> block_height row = h)
                \<and> (\<forall>(k, row) \<in> set (ntxidLookupAll n (rows db)).
                      state row = confirmed \<longrightarrow> sint (block_height row) \<le> sint h)
           else if 1 < length (ntxidLookupAll n (rows db)) then h = - 1 else h = 0)))"
proof -
  let ?c = "ntxidLookupAll n (rows db)"
  let ?m = "fold ntxidHeight_step ?c 0"
  note f = fold_ntxidHeight_step [of ?c 0]
  have res: "?c \<noteq> [] \<Longrightarrow>
      ntxidHeight n db = Inr (if 1 < length ?c \<and> ?m = 0 then - 1 else ?m)"
    by (simp add: ntxidHeight_def Let_def)
  have first: "ntxidHeight n db = Inl NotInDatabase \<longleftrightarrow> ?c = []"
    by (simp add: ntxidHeight_def Let_def)
  have pos: "?m \<noteq> 0 \<and> (\<exists>(k, row) \<in> set ?c. state row = confirmed \<and> block_height row = ?m)"
    if "\<exists>(k, row) \<in> set ?c. state row = confirmed \<and> 0 < sint (block_height row)"
  proof -
    from that f have "0 < sint ?m" by fastforce
    then have "?m \<noteq> 0" by auto
    with f show ?thesis by blast
  qed
  have nonpos: "?m = 0"
    if "\<not> (\<exists>(k, row) \<in> set ?c. state row = confirmed \<and> 0 < sint (block_height row))"
  proof (rule ccontr)
    assume "?m \<noteq> 0"
    with f obtain k row where "(k, row) \<in> set ?c" "state row = confirmed" "block_height row = ?m"
      by blast
    with that have "sint ?m \<le> 0" by fastforce
    moreover from f have "0 \<le> sint ?m" by simp
    ultimately have "sint ?m = 0" by simp
    then have "?m = 0" by (simp add: signed_eq_0_iff)
    with \<open>?m \<noteq> 0\<close> show False by simp
  qed
  show ?thesis
  proof (intro conjI impI)
    show "ntxidHeight n db = Inl NotInDatabase \<longleftrightarrow> ?c = []" by (rule first)
  next
    assume ne: "?c \<noteq> []"
    show "\<exists>h. ntxidHeight n db = Inr h \<and>
          (if \<exists>(k, row) \<in> set ?c. state row = confirmed \<and> 0 < sint (block_height row)
           then (\<exists>(k, row) \<in> set ?c. state row = confirmed \<and> block_height row = h)
                \<and> (\<forall>(k, row) \<in> set ?c. state row = confirmed \<longrightarrow> sint (block_height row) \<le> sint h)
           else if 1 < length ?c then h = - 1 else h = 0)"
    proof (cases "\<exists>(k, row) \<in> set ?c. state row = confirmed \<and> 0 < sint (block_height row)")
      case True
      from pos [OF True] res [OF ne] have "ntxidHeight n db = Inr ?m" by simp
      with True pos [OF True] f show ?thesis by simp
    next
      case False
      from nonpos [OF False] res [OF ne]
      have "ntxidHeight n db = Inr (if 1 < length ?c then - 1 else 0)" by simp
      with False show ?thesis by simp
    qed
  qed
qed

theorem ntxidHeight_result_witness:
  "ntxidLookupAll 7 (rows malleated_pair) \<noteq> []
   \<and> (\<exists>h. ntxidHeight 7 malleated_pair = Inr h \<and> sint h = 500)
   \<and> ntxidLookupAll 7 (rows inserted_pair) \<noteq> []
   \<and> ntxidHeight 7 inserted_pair = Inr (- 1)
   \<and> ntxidLookupAll 8 (rows malleated_pair) = []
   \<and> ntxidHeight 8 malleated_pair = Inl NotInDatabase"
proof -
  have ne: "ntxidLookupAll 7 (rows malleated_pair) \<noteq> []"
    by (simp add: malleated_pair_def ntxidLookupAll_def toy_row_def)
  have p: "\<exists>(k, row) \<in> set (ntxidLookupAll 7 (rows malleated_pair)).
      state row = confirmed \<and> 0 < sint (block_height row)"
    by (simp add: malleated_pair_def ntxidLookupAll_def toy_row_def)
  from ntxidHeight_result [of 7 malleated_pair] ne p
  obtain h where h: "ntxidHeight 7 malleated_pair = Inr h"
    and "\<exists>(k, row) \<in> set (ntxidLookupAll 7 (rows malleated_pair)).
           state row = confirmed \<and> block_height row = h"
    by auto
  then have "h = 500"
    by (auto simp: malleated_pair_def ntxidLookupAll_def toy_row_def)
  with h have a: "\<exists>h. ntxidHeight 7 malleated_pair = Inr h \<and> sint h = 500" by simp
  have c: "ntxidLookupAll 7 (rows inserted_pair)
      = [(1, toy_row 1 7 unconfirmed 0 True False), (2, toy_row 2 7 unconfirmed 0 True False)]"
    by (simp add: inserted_pair_def ntxidLookupAll_def toy_row_def)
  have q: "\<not> (\<exists>(k, row) \<in> set (ntxidLookupAll 7 (rows inserted_pair)).
      state row = confirmed \<and> 0 < sint (block_height row))"
    unfolding c by (simp add: toy_row_def confirmed_def unconfirmed_def)
  from ntxidHeight_result [of 7 inserted_pair] q
  have b: "ntxidHeight 7 inserted_pair = Inr (- 1)"
    unfolding c by auto
  have e: "ntxidLookupAll 8 (rows malleated_pair) = []"
    by (simp add: malleated_pair_def ntxidLookupAll_def toy_row_def)
  with ntxidHeight_result [of 8 malleated_pair]
  have d: "ntxidHeight 8 malleated_pair = Inl NotInDatabase" by blast
  from ne a c b e d show ?thesis by simp
qed

text \<open>
  C4 as it is stated fails: in a cluster of two rows that are both confirmed at height
  0, the greatest height of the confirmed rows is 0, and \<open>ntxidHeight\<close> returns \<open>-1\<close>.
\<close>

theorem ntxidHeight_counterexample:
  "map_option (ntxidHeight 7) genesis_cluster = Some (Inr (- 1))
   \<and> map_option (\<lambda>db. map (\<lambda>(k, row). (state row, block_height row)) (ntxidLookupAll 7 (rows db)))
        genesis_cluster = Some [(confirmed, 0), (confirmed, 0)]"
  unfolding genesis_cluster_def by code_simp

lemma ntxidLookup_loop_append:
  "\<forall>(k, r) \<in> set xs. \<not> bMasterConfirm r \<Longrightarrow>
   ntxidLookup_loop (xs @ ys) t f = ntxidLookup_loop ys (ntxidLookup_loop xs t f) (f \<or> xs \<noteq> [])"
  by (induction xs arbitrary: t f) (auto simp: Let_def)

lemma ntxidLookup_loop_no_master:
  "\<forall>(k, r) \<in> set xs. \<not> bMasterConfirm r \<Longrightarrow>
   ntxidLookup_loop xs t True = t \<and> (\<forall>(k, r) \<in> set xs. state r \<noteq> confirmed)
   \<or> (\<exists>(k, r) \<in> set xs. state r = confirmed \<and> ntxidLookup_loop xs t True = assigned (tx r))"
proof (induction xs arbitrary: t)
  case Nil
  then show ?case by simp
next
  case (Cons x xs)
  obtain k r where x: "x = (k, r)" by (cases x)
  from Cons.prems have nm: "\<not> bMasterConfirm r" "\<forall>(k, r) \<in> set xs. \<not> bMasterConfirm r"
    by (auto simp: x)
  show ?case
  proof (cases "state r = confirmed")
    case True
    with nm Cons.IH [OF nm(2), of "assigned (tx r)"] show ?thesis
      by (auto simp: x Let_def)
  next
    case False
    with nm Cons.IH [OF nm(2), of t] show ?thesis
      by (auto simp: x Let_def)
  qed
qed

text \<open>
  C5, as amended. With no row of the \<open>ntxid\<close>, \<open>ntxidLookup\<close> returns its local
  transaction as it was declared, default-initialised and never assigned: no inputs,
  no outputs, and a \<open>version\<close> and a \<open>locktime\<close> that were never set. Let \<open>m\<close> be the first
  row of the cluster, in iteration order, with \<open>master_confirm\<close>: when \<open>m\<close> is confirmed,
  or is the first row of the cluster, the result is the transaction of \<open>m\<close>. When no row
  of the cluster has \<open>master_confirm\<close> and some row is confirmed, the result is the
  transaction of a confirmed row; when none is confirmed either, it is the transaction
  of the first row of the cluster.
\<close>

theorem ntxidLookup_policy:
  "(ntxidLookupAll n (rows db) = [] \<longrightarrow> ntxidLookup n db = default_initialised)
   \<and> (ntxidLookupAll n (rows db) = pre @ (k, m) # post
        \<and> (\<forall>(k', r) \<in> set pre. \<not> bMasterConfirm r) \<and> bMasterConfirm m
        \<and> (state m = confirmed \<or> pre = [])
      \<longrightarrow> ntxidLookup n db = assigned (tx m))
   \<and> ((\<forall>(k', r) \<in> set (ntxidLookupAll n (rows db)). \<not> bMasterConfirm r)
        \<and> (\<exists>(k', r) \<in> set (ntxidLookupAll n (rows db)). state r = confirmed)
      \<longrightarrow> (\<exists>(k', r) \<in> set (ntxidLookupAll n (rows db)).
            state r = confirmed \<and> ntxidLookup n db = assigned (tx r)))
   \<and> ((\<forall>(k', r) \<in> set (ntxidLookupAll n (rows db)). \<not> bMasterConfirm r \<and> state r \<noteq> confirmed)
        \<and> ntxidLookupAll n (rows db) = (k, m) # post
      \<longrightarrow> ntxidLookup n db = assigned (tx m))"
proof (intro conjI impI)
  assume "ntxidLookupAll n (rows db) = []"
  then show "ntxidLookup n db = default_initialised"
    by (simp add: ntxidLookup_def)
next
  assume a: "ntxidLookupAll n (rows db) = pre @ (k, m) # post
        \<and> (\<forall>(k', r) \<in> set pre. \<not> bMasterConfirm r) \<and> bMasterConfirm m
        \<and> (state m = confirmed \<or> pre = [])"
  then have "ntxidLookup n db =
      ntxidLookup_loop ((k, m) # post) (ntxidLookup_loop pre default_initialised False) (pre \<noteq> [])"
    by (simp add: ntxidLookup_def ntxidLookup_loop_append)
  with a show "ntxidLookup n db = assigned (tx m)"
    by (auto simp: Let_def)
next
  let ?c = "ntxidLookupAll n (rows db)"
  assume a: "(\<forall>(k', r) \<in> set ?c. \<not> bMasterConfirm r) \<and> (\<exists>(k', r) \<in> set ?c. state r = confirmed)"
  then obtain k0 r0 xs where c: "?c = (k0, r0) # xs"
    by (cases ?c) auto
  from a c have nm: "\<not> bMasterConfirm r0" "\<forall>(k', r) \<in> set xs. \<not> bMasterConfirm r"
    by auto
  have l: "ntxidLookup n db = ntxidLookup_loop xs (assigned (tx r0)) True"
    using nm by (simp add: ntxidLookup_def c Let_def)
  from ntxidLookup_loop_no_master [OF nm(2), of "assigned (tx r0)"] a
  show "\<exists>(k', r) \<in> set ?c. state r = confirmed \<and> ntxidLookup n db = assigned (tx r)"
    unfolding l c by auto
next
  let ?c = "ntxidLookupAll n (rows db)"
  assume a: "(\<forall>(k', r) \<in> set ?c. \<not> bMasterConfirm r \<and> state r \<noteq> confirmed) \<and> ?c = (k, m) # post"
  then have nm: "\<not> bMasterConfirm m" "\<forall>(k', r) \<in> set post. \<not> bMasterConfirm r"
    "\<forall>(k', r) \<in> set post. state r \<noteq> confirmed"
    by auto
  have l: "ntxidLookup n db = ntxidLookup_loop post (assigned (tx m)) True"
    using nm a by (simp add: ntxidLookup_def Let_def)
  from ntxidLookup_loop_no_master [OF nm(2), of "assigned (tx m)"] nm(3)
  show "ntxidLookup n db = assigned (tx m)"
    unfolding l by auto
qed

theorem ntxidLookup_policy_witness:
  "ntxidLookupAll 7 (rows malleated_pair) =
       [] @ (1, toy_row 1 7 confirmed 500 True True) # [(2, toy_row 2 7 confirmed 500 True False)]
   \<and> bMasterConfirm (toy_row 1 7 confirmed 500 True True)
   \<and> state (toy_row 1 7 confirmed 500 True True) = confirmed
   \<and> ntxidLookup 7 malleated_pair = assigned (toy_tx 1 7)
   \<and> ntxidLookupAll 8 (rows malleated_pair) = []
   \<and> ntxidLookup 8 malleated_pair = default_initialised
   \<and> ntxidLookupAll 7 (rows late_confirmed) =
       [(1, toy_row 1 7 unconfirmed 0 True False), (2, toy_row 2 7 confirmed 500 True False)]
   \<and> ntxidLookup 7 late_confirmed = assigned (toy_tx 2 7)
   \<and> ntxidLookupAll 7 (rows inserted_pair) =
       [(1, toy_row 1 7 unconfirmed 0 True False), (2, toy_row 2 7 unconfirmed 0 True False)]
   \<and> ntxidLookup 7 inserted_pair = assigned (toy_tx 1 7)"
proof -
  let ?m = "toy_row 1 7 confirmed 500 True True"
  let ?post = "[(2, toy_row 2 7 confirmed 500 True False)]"
  have h: "ntxidLookupAll 7 (rows malleated_pair) = [] @ (1, ?m) # ?post
        \<and> (\<forall>(k', r) \<in> set []. \<not> bMasterConfirm r) \<and> bMasterConfirm ?m
        \<and> (state ?m = confirmed \<or> [] = ([] :: row_table))"
    by (simp add: malleated_pair_def ntxidLookupAll_def toy_row_def)
  have e: "ntxidLookupAll 8 (rows malleated_pair) = []"
    by (simp add: malleated_pair_def ntxidLookupAll_def toy_row_def)
  from ntxidLookup_policy [of 7 malleated_pair "[]" 1 ?m ?post] h
  have a: "ntxidLookup 7 malleated_pair = assigned (tx ?m)" by blast
  from ntxidLookup_policy [of 8 malleated_pair "[]" 1 ?m ?post] e
  have b: "ntxidLookup 8 malleated_pair = default_initialised" by blast
  have l: "ntxidLookupAll 7 (rows late_confirmed) =
       [(1, toy_row 1 7 unconfirmed 0 True False), (2, toy_row 2 7 confirmed 500 True False)]"
    by (simp add: late_confirmed_def ntxidLookupAll_def toy_row_def)
  have "\<exists>(k', r) \<in> set (ntxidLookupAll 7 (rows late_confirmed)).
      state r = confirmed \<and> ntxidLookup 7 late_confirmed = assigned (tx r)"
    using ntxidLookup_policy [of 7 late_confirmed "[]" 1 ?m ?post]
    unfolding l by (simp add: toy_row_def)
  then have c: "ntxidLookup 7 late_confirmed = assigned (toy_tx 2 7)"
    unfolding l by (simp add: toy_row_def confirmed_def unconfirmed_def)
  have i: "ntxidLookupAll 7 (rows inserted_pair) =
       [(1, toy_row 1 7 unconfirmed 0 True False), (2, toy_row 2 7 unconfirmed 0 True False)]"
    by (simp add: inserted_pair_def ntxidLookupAll_def toy_row_def)
  have "ntxidLookup 7 inserted_pair = assigned (tx (toy_row 1 7 unconfirmed 0 True False))"
    using ntxidLookup_policy [of 7 inserted_pair "[]" 1 "toy_row 1 7 unconfirmed 0 True False"
        "[(2, toy_row 2 7 unconfirmed 0 True False)]"]
    unfolding i by (simp add: toy_row_def confirmed_def unconfirmed_def)
  then have d: "ntxidLookup 7 inserted_pair = assigned (toy_tx 1 7)" by (simp add: toy_row_def)
  from h e a b l c i d show ?thesis
    by (simp add: toy_row_def)
qed

text \<open>
  C5 as it is stated fails, in whichever order the table iterates its nodes. M1 and M2
  share an \<open>ntxid\<close> and both are inserted; the table then holds the two rows, M1 before
  M2 or M2 before M1. The transaction iterated second is confirmed and then
  unconfirmed again: \<open>confirmed\<close> gives its row \<open>master_confirm\<close> and \<open>unconfirmed\<close> leaves
  the flag set, so it is the only row of the cluster with \<open>master_confirm\<close>, it is
  unconfirmed, and \<open>ntxidLookup\<close> returns the transaction of the other row. Neither
  call adds or removes a node, so the order of the two rows stays what it was.
\<close>

theorem ntxidLookup_counterexample:
  "map_option (\<lambda>db. (ntxidLookup 7 db,
        map (\<lambda>(k, row). (tx row, state row, bMasterConfirm row)) (ntxidLookupAll 7 (rows db))))
      (run toy_codec [Confirmed 2 500, Unconfirmed 2] inserted_pair)
     = Some (assigned (toy_tx 1 7),
         [(toy_tx 1 7, unconfirmed, False), (toy_tx 2 7, unconfirmed, True)])
   \<and> map_option (\<lambda>db. (ntxidLookup 7 db,
        map (\<lambda>(k, row). (tx row, state row, bMasterConfirm row)) (ntxidLookupAll 7 (rows db))))
      (run toy_codec [Confirmed 1 500, Unconfirmed 1] inserted_pair_swapped)
     = Some (assigned (toy_tx 2 7),
         [(toy_tx 2 7, unconfirmed, False), (toy_tx 1 7, unconfirmed, True)])"
  unfolding inserted_pair_def inserted_pair_swapped_def by code_simp

subsection \<open>Loops over a cluster\<close>

lemma keys_pointwise: "map fst (pointwise g rs) = map fst rs"
  by (induction rs) (auto simp: pointwise_def)

lemma set_pointwise: "set (pointwise g rs) = (\<lambda>(k, r). (k, g k r)) ` set rs"
  by (simp add: pointwise_def)

lemma set_keys_pointwise: "fst ` set (pointwise g rs) = fst ` set rs"
  using keys_pointwise [of g rs] by (metis set_map)

lemma map_of_pointwise: "map_of (pointwise g rs) k = map_option (g k) (map_of rs k)"
  by (induction rs) (auto simp: pointwise_def)

lemma pointwise_pointwise: "pointwise g (pointwise g' rs) = pointwise (\<lambda>k r. g k (g' k r)) rs"
  by (induction rs) (auto simp: pointwise_def)

lemma pointwise_id: "pointwise (\<lambda>k r. r) rs = rs"
  by (induction rs) (auto simp: pointwise_def)

lemma pointwise_cong:
  "(\<And>k r. (k, r) \<in> set rs \<Longrightarrow> g k r = g' k r) \<Longrightarrow> pointwise g rs = pointwise g' rs"
  by (induction rs) (auto simp: pointwise_def)

lemma modify_absent: "k \<notin> fst ` set rs \<Longrightarrow> modify k f rs = rs"
  by (induction rs) (auto simp: image_iff)

lemma modify_pointwise:
  "distinct (map fst rs) \<Longrightarrow> modify k f rs = pointwise (\<lambda>k' r. if k' = k then f r else r) rs"
proof (induction rs)
  case Nil
  then show ?case by (simp add: pointwise_def)
next
  case (Cons x rs)
  obtain k' r where x: "x = (k', r)" by (cases x)
  show ?case
  proof (cases "k' = k")
    case True
    with Cons.prems x have "k \<notin> fst ` set rs" by auto
    then have "pointwise (\<lambda>k' r. if k' = k then f r else r) rs = rs"
      by (induction rs) (auto simp: pointwise_def image_iff)
    with True show ?thesis by (simp add: x pointwise_def)
  next
    case False
    with Cons show ?thesis by (simp add: x pointwise_def)
  qed
qed

lemma modify_on_pointwise:
  "distinct (map fst rs) \<Longrightarrow>
   modify k f (pointwise g rs) = pointwise (\<lambda>k' r. if k' = k then f (g k' r) else g k' r) rs"
proof -
  assume d: "distinct (map fst rs)"
  then have "distinct (map fst (pointwise g rs))" by (simp add: keys_pointwise)
  then have "modify k f (pointwise g rs)
      = pointwise (\<lambda>k' r. if k' = k then f r else r) (pointwise g rs)"
    by (rule modify_pointwise)
  also have "\<dots> = pointwise (\<lambda>k' r. if k' = k then f (g k' r) else g k' r) rs"
    by (simp add: pointwise_pointwise if_distrib cong: if_cong)
  finally show ?thesis .
qed

lemma unique_value:
  "distinct (map fst rs) \<Longrightarrow> (k, a) \<in> set rs \<Longrightarrow> (k, b) \<in> set rs \<Longrightarrow> a = b"
  by (meson eq_key_imp_eq_value)

lemma sibling_keys_Cons:
  "sibling_keys t ((k, row) # xs) = (if txid row \<noteq> t then insert k (sibling_keys t xs) else sibling_keys t xs)"
  by (force simp: sibling_keys_def image_iff)

lemma sibling_keys_Nil: "sibling_keys t [] = {}"
  by (simp add: sibling_keys_def)

lemma sibling_keys_cluster:
  assumes "distinct (map fst rs)" and "(k, r) \<in> set rs"
  shows "k \<in> sibling_keys t (ntxidLookupAll n rs) \<longleftrightarrow> ntxid r = n \<and> txid r \<noteq> t"
proof
  assume "k \<in> sibling_keys t (ntxidLookupAll n rs)"
  then obtain r' where "(k, r') \<in> set rs" "ntxid r' = n" "txid r' \<noteq> t"
    by (auto simp: sibling_keys_def ntxidLookupAll_def)
  with assms unique_value [of rs k r r'] show "ntxid r = n \<and> txid r \<noteq> t" by auto
next
  assume "ntxid r = n \<and> txid r \<noteq> t"
  with assms(2) show "k \<in> sibling_keys t (ntxidLookupAll n rs)"
    by (force simp: sibling_keys_def ntxidLookupAll_def image_iff)
qed

lemma sibling_keys_empty:
  "sibling_keys t (ntxidLookupAll n rs) = {} \<longleftrightarrow> \<not> (\<exists>(k, r) \<in> set rs. ntxid r = n \<and> txid r \<noteq> t)"
  by (auto simp: sibling_keys_def ntxidLookupAll_def)

lemma demoted_keys_Cons:
  "demoted_keys t ((k, row) # xs) =
     (if txid row \<noteq> t \<and> \<not> bMasterConfirm row then insert k (demoted_keys t xs) else demoted_keys t xs)"
  by (force simp: demoted_keys_def image_iff)

lemma demoted_keys_Nil: "demoted_keys t [] = {}"
  by (simp add: demoted_keys_def)

lemma demoted_keys_cluster:
  assumes "distinct (map fst rs)" and "(k, r) \<in> set rs"
  shows "k \<in> demoted_keys t (ntxidLookupAll n rs) \<longleftrightarrow> ntxid r = n \<and> txid r \<noteq> t \<and> \<not> bMasterConfirm r"
proof
  assume "k \<in> demoted_keys t (ntxidLookupAll n rs)"
  then obtain r' where "(k, r') \<in> set rs" "ntxid r' = n" "txid r' \<noteq> t" "\<not> bMasterConfirm r'"
    by (auto simp: demoted_keys_def ntxidLookupAll_def)
  with assms unique_value [of rs k r r'] show "ntxid r = n \<and> txid r \<noteq> t \<and> \<not> bMasterConfirm r" by auto
next
  assume "ntxid r = n \<and> txid r \<noteq> t \<and> \<not> bMasterConfirm r"
  with assms(2) show "k \<in> demoted_keys t (ntxidLookupAll n rs)"
    by (force simp: demoted_keys_def ntxidLookupAll_def image_iff)
qed

lemma insert_step_eq:
  "insert_step t (k, row) (acc, h, s, m) =
     (if t \<noteq> txid row
      then (modify k (\<lambda>r. r\<lparr>bMalleated := True\<rparr>) acc, block_height row, state row, True)
      else (acc, h, s, m))"
  by (simp add: insert_step_def)

lemma insert_loop_rows:
  "distinct (map fst rs) \<Longrightarrow>
   fst (fold (insert_step t) xs (pointwise g rs, h, s, m)) =
     pointwise (\<lambda>k r. if k \<in> sibling_keys t xs then (g k r)\<lparr>bMalleated := True\<rparr> else g k r) rs"
proof (induction xs arbitrary: g h s m)
  case Nil
  then show ?case by (simp add: sibling_keys_Nil)
next
  case (Cons x xs)
  obtain k row where x: "x = (k, row)" by (cases x)
  show ?case
  proof (cases "t \<noteq> txid row")
    case True
    have "fst (fold (insert_step t) (x # xs) (pointwise g rs, h, s, m)) =
        fst (fold (insert_step t) xs
          (pointwise (\<lambda>k' r. if k' = k then (g k' r)\<lparr>bMalleated := True\<rparr> else g k' r) rs,
           block_height row, state row, True))"
      using True by (simp add: x insert_step_def modify_on_pointwise [OF Cons.prems])
    also have "\<dots> = pointwise (\<lambda>k' r. if k' \<in> sibling_keys t (x # xs)
        then (g k' r)\<lparr>bMalleated := True\<rparr> else g k' r) rs"
      using True by (subst Cons.IH [OF Cons.prems]) (auto simp: x sibling_keys_Cons intro!: pointwise_cong)
    finally show ?thesis .
  next
    case False
    then show ?thesis
      using Cons.IH [OF Cons.prems, of g h s m] by (simp add: x insert_step_def sibling_keys_Cons)
  qed
qed

lemma insert_loop_locals:
  "snd (fold (insert_step t) xs (acc, h, s, m)) = (h, s, m) \<and> sibling_keys t xs = {}
   \<or> (\<exists>(k, row) \<in> set xs. txid row \<noteq> t \<and>
        snd (fold (insert_step t) xs (acc, h, s, m)) = (block_height row, state row, True))"
proof (induction xs arbitrary: acc h s m)
  case Nil
  then show ?case by (simp add: sibling_keys_Nil)
next
  case (Cons x xs)
  obtain k row where x: "x = (k, row)" by (cases x)
  show ?case
  proof (cases "t \<noteq> txid row")
    case True
    from Cons.IH [of "modify k (\<lambda>r. r\<lparr>bMalleated := True\<rparr>) acc" "block_height row" "state row" True]
    show ?thesis using True
      by (auto simp: x insert_step_def sibling_keys_Cons)
  next
    case False
    from Cons.IH [of acc h s m]
    show ?thesis using False
      by (auto simp: x insert_step_def sibling_keys_Cons)
  qed
qed

lemma confirmed_loop:
  "distinct (map fst rs) \<Longrightarrow>
   fold (confirmed_step t h) xs (pointwise g rs) =
     pointwise (\<lambda>k r.
        let r2 = (if k \<in> sibling_keys t xs
                  then (g k r)\<lparr>block_height := h, state := confirmed, bMalleated := True\<rparr>
                  else g k r)
        in if k = t \<and> sibling_keys t xs \<noteq> {} then r2\<lparr>bMalleated := True\<rparr> else r2) rs"
proof (induction xs arbitrary: g)
  case Nil
  then show ?case by (simp add: sibling_keys_Nil)
next
  case (Cons x xs)
  obtain k row where x: "x = (k, row)" by (cases x)
  show ?case
  proof (cases "t \<noteq> txid row")
    case True
    let ?g' = "\<lambda>k' r. if k' = t
        then (if k' = k then (g k' r)\<lparr>block_height := h, state := confirmed, bMalleated := True\<rparr>
              else g k' r)\<lparr>bMalleated := True\<rparr>
        else (if k' = k then (g k' r)\<lparr>block_height := h, state := confirmed, bMalleated := True\<rparr>
              else g k' r)"
    have "fold (confirmed_step t h) (x # xs) (pointwise g rs) =
        fold (confirmed_step t h) xs (pointwise ?g' rs)"
      using True
      by (simp add: x confirmed_step_def modify_on_pointwise [OF Cons.prems])
    also have "\<dots> = pointwise (\<lambda>k r.
        let r2 = (if k \<in> sibling_keys t (x # xs)
                  then (g k r)\<lparr>block_height := h, state := confirmed, bMalleated := True\<rparr>
                  else g k r)
        in if k = t \<and> sibling_keys t (x # xs) \<noteq> {} then r2\<lparr>bMalleated := True\<rparr> else r2) rs"
      using True
      by (subst Cons.IH [OF Cons.prems])
         (auto simp: x sibling_keys_Cons Let_def intro!: pointwise_cong)
    finally show ?thesis .
  next
    case False
    then show ?thesis
      using Cons.IH [OF Cons.prems, of g] by (simp add: x confirmed_step_def sibling_keys_Cons)
  qed
qed

lemma unconfirmed_step_eq:
  "unconfirmed_step t (k, row) (acc, h, s, m) =
     (if t \<noteq> txid row then
        (if bMasterConfirm row then (acc, block_height row, state row, m)
         else (modify k (\<lambda>r. r\<lparr>block_height := - 1, state := unconfirmed, bMalleated := True\<rparr>) acc,
               - 1, s, True))
      else (acc, h, s, m))"
  by (simp add: unconfirmed_step_def)

lemma unconfirmed_loop_rows:
  "distinct (map fst rs) \<Longrightarrow>
   fst (fold (unconfirmed_step t) xs (pointwise g rs, h, s, m)) =
     pointwise (\<lambda>k r. if k \<in> demoted_keys t xs
        then (g k r)\<lparr>block_height := - 1, state := unconfirmed, bMalleated := True\<rparr>
        else g k r) rs"
proof (induction xs arbitrary: g h s m)
  case Nil
  then show ?case by (simp add: demoted_keys_Nil)
next
  case (Cons x xs)
  obtain k row where x: "x = (k, row)" by (cases x)
  show ?case
  proof (cases "t \<noteq> txid row \<and> \<not> bMasterConfirm row")
    case True
    have "fst (fold (unconfirmed_step t) (x # xs) (pointwise g rs, h, s, m)) =
        fst (fold (unconfirmed_step t) xs
          (pointwise (\<lambda>k' r. if k' = k
              then (g k' r)\<lparr>block_height := - 1, state := unconfirmed, bMalleated := True\<rparr>
              else g k' r) rs, - 1, s, True))"
      using True by (simp add: x unconfirmed_step_def modify_on_pointwise [OF Cons.prems])
    also have "\<dots> = pointwise (\<lambda>k' r. if k' \<in> demoted_keys t (x # xs)
        then (g k' r)\<lparr>block_height := - 1, state := unconfirmed, bMalleated := True\<rparr>
        else g k' r) rs"
      using True
      by (subst Cons.IH [OF Cons.prems]) (auto simp: x demoted_keys_Cons intro!: pointwise_cong)
    finally show ?thesis .
  next
    case False
    then show ?thesis
      using Cons.IH [OF Cons.prems, of g] by (auto simp: x unconfirmed_step_def demoted_keys_Cons)
  qed
qed

lemma unconfirmed_loop_malleated:
  "snd (snd (snd (fold (unconfirmed_step t) xs (acc, h, s, m)))) = (m \<or> demoted_keys t xs \<noteq> {})"
proof (induction xs arbitrary: acc h s m)
  case Nil
  then show ?case by (simp add: demoted_keys_Nil)
next
  case (Cons x xs)
  obtain k row where x: "x = (k, row)" by (cases x)
  show ?case
    by (cases "txid row = t"; cases "bMasterConfirm row")
       (simp_all add: x unconfirmed_step_eq demoted_keys_Cons Cons.IH eq_commute [of t])
qed

subsection \<open>The effect of the mutations\<close>

lemma insert_effect:
  assumes d: "distinct (map fst (rows db))"
    and absent: "map_of (rows db) (hash_transaction c x) = None"
  shows "\<exists>H S M. insert_tx c now x db =
      (True, db\<lparr>rows :=
         pointwise (insert_mark (makeNtxid c x) (hash_transaction c x)) (rows db)
         @ [(hash_transaction c x, new_row c now x H S M)]\<rparr>)
    \<and> (if has_sibling (makeNtxid c x) (hash_transaction c x) (rows db)
        then M \<and> (\<exists>(k, r) \<in> set (rows db). ntxid r = makeNtxid c x \<and> txid r \<noteq> hash_transaction c x
                    \<and> S = state r \<and> H = block_height r)
        else \<not> M \<and> S = unconfirmed \<and> H = 0)"
proof -
  let ?t = "hash_transaction c x" and ?n = "makeNtxid c x"
  let ?xs = "ntxidLookupAll ?n (rows db)"
  obtain rs' H S M where f: "fold (insert_step ?t) ?xs (rows db, 0, unconfirmed, False) = (rs', H, S, M)"
    by (metis prod_cases4)
  have "rs' = fst (fold (insert_step ?t) ?xs (pointwise (\<lambda>k r. r) (rows db), 0, unconfirmed, False))"
    by (simp add: f pointwise_id)
  also have "\<dots> = pointwise (\<lambda>k r. if k \<in> sibling_keys ?t ?xs then r\<lparr>bMalleated := True\<rparr> else r) (rows db)"
    by (rule insert_loop_rows [OF d])
  also have "\<dots> = pointwise (insert_mark ?n ?t) (rows db)"
    by (rule pointwise_cong) (simp add: sibling_keys_cluster [OF d] insert_mark_def)
  finally have rs': "rs' = pointwise (insert_mark ?n ?t) (rows db)" .
  have res: "insert_tx c now x db = (True, db\<lparr>rows := rs' @ [(?t, new_row c now x H S M)]\<rparr>)"
    using absent f by (simp add: insert_tx_def Let_def new_row_def)
  from insert_loop_locals [of ?t ?xs "rows db" 0 unconfirmed False]
  have loc: "(if has_sibling ?n ?t (rows db)
        then M \<and> (\<exists>(k, r) \<in> set (rows db). ntxid r = ?n \<and> txid r \<noteq> ?t
                    \<and> S = state r \<and> H = block_height r)
        else \<not> M \<and> S = unconfirmed \<and> H = 0)"
  proof
    assume a: "snd (fold (insert_step ?t) ?xs (rows db, 0, unconfirmed, False)) = (0, unconfirmed, False)
        \<and> sibling_keys ?t ?xs = {}"
    then have "\<not> has_sibling ?n ?t (rows db)"
      by (simp add: sibling_keys_empty has_sibling_def)
    with a f show ?thesis by simp
  next
    assume "\<exists>(k, row) \<in> set ?xs. txid row \<noteq> ?t \<and>
        snd (fold (insert_step ?t) ?xs (rows db, 0, unconfirmed, False)) = (block_height row, state row, True)"
    then obtain k row where kr: "(k, row) \<in> set ?xs" "txid row \<noteq> ?t"
      "H = block_height row" "S = state row" "M"
      by (auto simp: f)
    from kr(1) have "(k, row) \<in> set (rows db)" "ntxid row = ?n"
      by (auto simp: ntxidLookupAll_def)
    with kr show ?thesis by (auto simp: has_sibling_def)
  qed
  from res rs' loc show ?thesis by blast
qed

lemma confirmed_effect:
  assumes d: "distinct (map fst (rows db))"
    and present: "map_of (rows db) t = Some row"
  shows "confirmed_tx t h db = Some (db\<lparr>rows :=
      pointwise (confirmed_row t h (ntxid row) (has_sibling (ntxid row) t (rows db))) (rows db)\<rparr>)"
proof -
  let ?xs = "ntxidLookupAll (ntxid row) (rows db)"
  let ?f = "\<lambda>r. r\<lparr>state := confirmed, block_height := h, bMasterConfirm := True\<rparr>"
  let ?g = "\<lambda>k r. if k = t then ?f r else r"
  have "confirmed_tx t h db = Some (db\<lparr>rows := fold (confirmed_step t h) ?xs (modify t ?f (rows db))\<rparr>)"
    using present by (simp add: confirmed_tx_def check_fork_id Let_def)
  also have "modify t ?f (rows db) = pointwise ?g (rows db)"
    by (rule modify_pointwise [OF d])
  also have "fold (confirmed_step t h) ?xs (pointwise ?g (rows db)) =
     pointwise (\<lambda>k r.
        let r2 = (if k \<in> sibling_keys t ?xs
                  then (?g k r)\<lparr>block_height := h, state := confirmed, bMalleated := True\<rparr>
                  else ?g k r)
        in if k = t \<and> sibling_keys t ?xs \<noteq> {} then r2\<lparr>bMalleated := True\<rparr> else r2) (rows db)"
    by (rule confirmed_loop [OF d])
  also have "\<dots> = pointwise (confirmed_row t h (ntxid row) (has_sibling (ntxid row) t (rows db))) (rows db)"
    by (rule pointwise_cong)
       (simp add: sibling_keys_cluster [OF d] sibling_keys_empty Let_def confirmed_row_def has_sibling_def)
  finally show ?thesis .
qed

lemma unconfirmed_effect:
  assumes d: "distinct (map fst (rows db))"
    and present: "map_of (rows db) t = Some row"
  shows "\<exists>H S M. unconfirmed_tx t db =
      Some (db\<lparr>rows := pointwise (unconfirmed_row t row H S M) (rows db)\<rparr>)
    \<and> (bMalleated row \<longrightarrow> M)"
proof (cases "state row = confirmed")
  case False
  have "unconfirmed_tx t db = Some (db\<lparr>rows := modify t
      (\<lambda>r. r\<lparr>block_height := 0, state := unconfirmed, bMalleated := bMalleated row\<rparr>) (rows db)\<rparr>)"
    using present False by (simp add: unconfirmed_tx_def)
  also have "modify t (\<lambda>r. r\<lparr>block_height := 0, state := unconfirmed, bMalleated := bMalleated row\<rparr>) (rows db)
      = pointwise (\<lambda>k r. if k = t
          then r\<lparr>block_height := 0, state := unconfirmed, bMalleated := bMalleated row\<rparr> else r) (rows db)"
    by (rule modify_pointwise [OF d])
  also have "\<dots> = pointwise (unconfirmed_row t row 0 unconfirmed (bMalleated row)) (rows db)"
    using False by (simp add: unconfirmed_row_def Let_def)
  finally show ?thesis by blast
next
  case True
  let ?xs = "ntxidLookupAll (ntxid row) (rows db)"
  obtain rs' H S M where f:
    "fold (unconfirmed_step t) ?xs (rows db, 0, unconfirmed, bMalleated row) = (rs', H, S, M)"
    by (metis prod_cases4)
  have res: "unconfirmed_tx t db = Some (db\<lparr>rows := modify t
      (\<lambda>r. r\<lparr>block_height := H, state := S, bMalleated := M\<rparr>) rs'\<rparr>)"
    using present True f by (simp add: unconfirmed_tx_def Let_def check_fork_id option.case_eq_if)
  have "rs' = fst (fold (unconfirmed_step t) ?xs (pointwise (\<lambda>k r. r) (rows db), 0, unconfirmed, bMalleated row))"
    by (simp add: f pointwise_id)
  also have "\<dots> = pointwise (\<lambda>k r. if k \<in> demoted_keys t ?xs
        then r\<lparr>block_height := - 1, state := unconfirmed, bMalleated := True\<rparr> else r) (rows db)"
    by (rule unconfirmed_loop_rows [OF d])
  finally have rs': "rs' = pointwise (\<lambda>k r. if k \<in> demoted_keys t ?xs
        then r\<lparr>block_height := - 1, state := unconfirmed, bMalleated := True\<rparr> else r) (rows db)" .
  have "modify t (\<lambda>r. r\<lparr>block_height := H, state := S, bMalleated := M\<rparr>) rs'
      = pointwise (\<lambda>k r. if k = t
          then (if k \<in> demoted_keys t ?xs
                then r\<lparr>block_height := - 1, state := unconfirmed, bMalleated := True\<rparr> else r)
               \<lparr>block_height := H, state := S, bMalleated := M\<rparr>
          else (if k \<in> demoted_keys t ?xs
                then r\<lparr>block_height := - 1, state := unconfirmed, bMalleated := True\<rparr> else r)) (rows db)"
    unfolding rs' by (rule modify_on_pointwise [OF d])
  also have "\<dots> = pointwise (unconfirmed_row t row H S M) (rows db)"
    by (rule pointwise_cong) (simp add: demoted_keys_cluster [OF d] True Let_def unconfirmed_row_def)
  finally have m: "modify t (\<lambda>r. r\<lparr>block_height := H, state := S, bMalleated := M\<rparr>) rs'
      = pointwise (unconfirmed_row t row H S M) (rows db)" .
  have M: "M = (bMalleated row \<or> demoted_keys t ?xs \<noteq> {})"
    using unconfirmed_loop_malleated [of t ?xs "rows db" 0 unconfirmed "bMalleated row"]
    by (simp add: f)
  from M res m show ?thesis by auto
qed

lemma count_key_absent: "k \<notin> fst ` set rs \<Longrightarrow> filter (\<lambda>(k', r). k' = k) rs = []"
  by (induction rs) auto

lemma count_key_present:
  "distinct (map fst rs) \<Longrightarrow> k \<in> fst ` set rs \<Longrightarrow> length (filter (\<lambda>(k', r). k' = k) rs) = 1"
proof (induction rs)
  case Nil
  then show ?case by simp
next
  case (Cons x rs)
  obtain k' r where x: "x = (k', r)" by (cases x)
  show ?case
  proof (cases "k' = k")
    case True
    with Cons.prems x have "k \<notin> fst ` set rs" by auto
    then show ?thesis using True by (simp add: x count_key_absent)
  next
    case False
    with Cons show ?thesis by (auto simp: x)
  qed
qed

lemma s3_run: "run toy_codec s3_calls (new_db 60) = Some malleated_pair"
  by code_simp

lemma demoted_run:
  "run toy_codec [Confirmed 1 500, Unconfirmed 1] inserted_pair_swapped = Some demoted_pair"
  unfolding inserted_pair_swapped_def by code_simp

text \<open>
  C6. In a database with unique keys, \<open>insert(tx)\<close> returns \<open>false\<close> and changes nothing
  when a row is stored under \<open>txid(tx)\<close>. Otherwise it returns \<open>true\<close> and adds one
  row under \<open>txid(tx)\<close>, after the others: its \<open>tx\<close>, \<open>txid\<close> and \<open>ntxid\<close> are those of the
  transaction, its \<open>timestamp\<close> is now, \<open>need_check\<close> and \<open>master_confirm\<close> are false. When
  the table holds a row of the same \<open>ntxid\<close> with another \<open>txid\<close>, the new row has the
  \<open>state\<close> and \<open>block_height\<close> of such a row and is malleated, every such row becomes
  malleated, and (rows being stored under their \<open>txid\<close>) every row of that \<open>ntxid\<close> is
  then malleated; when it holds none, the new row is unconfirmed at height 0 and not
  malleated. No other row changes. A second \<open>insert\<close> of the transaction returns \<open>false\<close>
  and changes nothing, and exactly one row is stored under its \<open>txid\<close>.
\<close>

theorem insert_semantics:
  assumes u: "unique_keys (rows db)"
  shows "(map_of (rows db) (hash_transaction c x) \<noteq> None \<longrightarrow> insert_tx c now x db = (False, db))
   \<and> (map_of (rows db) (hash_transaction c x) = None \<longrightarrow>
       (\<exists>new db'. insert_tx c now x db = (True, db')
          \<and> last_height db' = last_height db \<and> unconfirmed_timeout db' = unconfirmed_timeout db
          \<and> map fst (rows db') = map fst (rows db) @ [hash_transaction c x]
          \<and> map_of (rows db') (hash_transaction c x) = Some new
          \<and> (\<forall>k r. map_of (rows db) k = Some r \<longrightarrow>
                map_of (rows db') k =
                  Some (if ntxid r = makeNtxid c x \<and> txid r \<noteq> hash_transaction c x
                        then r\<lparr>bMalleated := True\<rparr> else r))
          \<and> tx new = x \<and> txid new = hash_transaction c x \<and> ntxid new = makeNtxid c x
          \<and> timestamp new = now \<and> \<not> need_check new \<and> \<not> bMasterConfirm new
          \<and> (if \<exists>(k, r) \<in> set (rows db). ntxid r = makeNtxid c x \<and> txid r \<noteq> hash_transaction c x
              then bMalleated new
                 \<and> (\<exists>(k, r) \<in> set (rows db). ntxid r = makeNtxid c x \<and> txid r \<noteq> hash_transaction c x
                       \<and> state new = state r \<and> block_height new = block_height r)
                 \<and> (keyed_by_txid (rows db) \<longrightarrow>
                       (\<forall>(k, r) \<in> set (rows db'). ntxid r = makeNtxid c x \<longrightarrow> bMalleated r))
              else \<not> bMalleated new \<and> state new = unconfirmed \<and> block_height new = 0)))
   \<and> insert_tx c now' x (snd (insert_tx c now x db)) = (False, snd (insert_tx c now x db))
   \<and> length (filter (\<lambda>(k, r). k = hash_transaction c x) (rows (snd (insert_tx c now x db)))) = 1"
proof -
  let ?t = "hash_transaction c x" and ?n = "makeNtxid c x"
  from u have d: "distinct (map fst (rows db))" by (simp add: unique_keys_def)
  have present: "insert_tx c now x db = (False, db)" if "map_of (rows db) ?t \<noteq> None"
    using that by (auto simp: insert_tx_def Let_def)
  have absent: "\<exists>new db'. insert_tx c now x db = (True, db')
          \<and> last_height db' = last_height db \<and> unconfirmed_timeout db' = unconfirmed_timeout db
          \<and> map fst (rows db') = map fst (rows db) @ [?t]
          \<and> map_of (rows db') ?t = Some new
          \<and> (\<forall>k r. map_of (rows db) k = Some r \<longrightarrow>
                map_of (rows db') k =
                  Some (if ntxid r = ?n \<and> txid r \<noteq> ?t then r\<lparr>bMalleated := True\<rparr> else r))
          \<and> tx new = x \<and> txid new = ?t \<and> ntxid new = ?n
          \<and> timestamp new = now \<and> \<not> need_check new \<and> \<not> bMasterConfirm new
          \<and> (if \<exists>(k, r) \<in> set (rows db). ntxid r = ?n \<and> txid r \<noteq> ?t
              then bMalleated new
                 \<and> (\<exists>(k, r) \<in> set (rows db). ntxid r = ?n \<and> txid r \<noteq> ?t
                       \<and> state new = state r \<and> block_height new = block_height r)
                 \<and> (keyed_by_txid (rows db) \<longrightarrow>
                       (\<forall>(k, r) \<in> set (rows db'). ntxid r = ?n \<longrightarrow> bMalleated r))
              else \<not> bMalleated new \<and> state new = unconfirmed \<and> block_height new = 0)"
    if none: "map_of (rows db) ?t = None"
  proof -
    from insert_effect [OF d none, of now]
    obtain H S M where
      res: "insert_tx c now x db = (True, db\<lparr>rows := pointwise (insert_mark ?n ?t) (rows db)
              @ [(?t, new_row c now x H S M)]\<rparr>)"
      and loc: "if has_sibling ?n ?t (rows db)
        then M \<and> (\<exists>(k, r) \<in> set (rows db). ntxid r = ?n \<and> txid r \<noteq> ?t
                    \<and> S = state r \<and> H = block_height r)
        else \<not> M \<and> S = unconfirmed \<and> H = 0"
      by blast
    let ?new = "new_row c now x H S M"
    let ?rs' = "pointwise (insert_mark ?n ?t) (rows db) @ [(?t, ?new)]"
    let ?db' = "db\<lparr>rows := ?rs'\<rparr>"
    have fresh: "?t \<notin> fst ` set (rows db)"
      using none by (simp add: map_of_eq_None_iff)
    have keys: "map fst (rows ?db') = map fst (rows db) @ [?t]"
      by (simp add: keys_pointwise)
    have at_t: "map_of (rows ?db') ?t = Some ?new"
      using none by (simp add: map_add_def map_of_pointwise)
    have olds: "\<forall>k r. map_of (rows db) k = Some r \<longrightarrow>
        map_of (rows ?db') k = Some (if ntxid r = ?n \<and> txid r \<noteq> ?t then r\<lparr>bMalleated := True\<rparr> else r)"
      by (simp add: map_add_def map_of_pointwise insert_mark_def)
    have fields: "tx ?new = x \<and> txid ?new = ?t \<and> ntxid ?new = ?n
          \<and> timestamp ?new = now \<and> \<not> need_check ?new \<and> \<not> bMasterConfirm ?new"
      by (simp add: new_row_def)
    have all: "\<forall>(k, r) \<in> set (rows ?db'). ntxid r = ?n \<longrightarrow> bMalleated r"
      if k: "keyed_by_txid (rows db)" and M
    proof -
      have "bMalleated (insert_mark ?n ?t k0 r0)" if "(k0, r0) \<in> set (rows db)" "ntxid r0 = ?n" for k0 r0
      proof -
        from k that(1) have "txid r0 = k0" by (auto simp: keyed_by_txid_def list_all_iff)
        moreover from that(1) fresh have "k0 \<noteq> ?t" by force
        ultimately show ?thesis using that(2) by (simp add: insert_mark_def)
      qed
      moreover have "ntxid (insert_mark ?n ?t k0 r0) = ntxid r0" for k0 r0
        by (simp add: insert_mark_def)
      ultimately show ?thesis
        using \<open>M\<close> by (auto simp: set_pointwise new_row_def)
    qed
    have inherit: "if \<exists>(k, r) \<in> set (rows db). ntxid r = ?n \<and> txid r \<noteq> ?t
              then bMalleated ?new
                 \<and> (\<exists>(k, r) \<in> set (rows db). ntxid r = ?n \<and> txid r \<noteq> ?t
                       \<and> state ?new = state r \<and> block_height ?new = block_height r)
                 \<and> (keyed_by_txid (rows db) \<longrightarrow>
                       (\<forall>(k, r) \<in> set (rows ?db'). ntxid r = ?n \<longrightarrow> bMalleated r))
              else \<not> bMalleated ?new \<and> state ?new = unconfirmed \<and> block_height ?new = 0"
    proof (cases "has_sibling ?n ?t (rows db)")
      case True
      with loc have M and "\<exists>(k, r) \<in> set (rows db). ntxid r = ?n \<and> txid r \<noteq> ?t
                    \<and> S = state r \<and> H = block_height r"
        by simp_all
      moreover have "state ?new = S" "block_height ?new = H" "bMalleated ?new = M"
        by (simp_all add: new_row_def)
      ultimately show ?thesis
        using True all unfolding has_sibling_def by simp
    next
      case False
      with loc have "\<not> M \<and> S = unconfirmed \<and> H = 0" by simp
      then show ?thesis
        using False unfolding has_sibling_def by (simp add: new_row_def)
    qed
    have "last_height ?db' = last_height db \<and> unconfirmed_timeout ?db' = unconfirmed_timeout db"
      by simp
    with res keys at_t olds fields inherit show ?thesis
      by (intro exI [of _ ?new] exI [of _ ?db']) (simp only: simp_thms)
  qed
  have has: "map_of (rows (snd (insert_tx c now x db))) ?t \<noteq> None
      \<and> length (filter (\<lambda>(k, r). k = ?t) (rows (snd (insert_tx c now x db)))) = 1"
  proof (cases "map_of (rows db) ?t = None")
    case True
    from insert_effect [OF d True, of now]
    obtain H S M where
      res: "insert_tx c now x db = (True, db\<lparr>rows := pointwise (insert_mark ?n ?t) (rows db)
              @ [(?t, new_row c now x H S M)]\<rparr>)"
      by (metis (no_types, lifting))
    have "?t \<notin> fst ` set (pointwise (insert_mark ?n ?t) (rows db))"
      using True by (simp add: set_keys_pointwise map_of_eq_None_iff)
    then show ?thesis
      using True by (simp add: res map_add_def map_of_pointwise count_key_absent)
  next
    case False
    then have "?t \<in> fst ` set (rows db)"
      by (simp add: map_of_eq_None_iff)
    with False d show ?thesis
      by (simp add: present count_key_present)
  qed
  then have again: "insert_tx c now' x (snd (insert_tx c now x db)) = (False, snd (insert_tx c now x db))"
    by (auto simp: insert_tx_def [of c now'] Let_def)
  from present absent again has show ?thesis
    by (intro conjI impI) simp_all
qed

theorem insert_semantics_witness:
  "unique_keys (rows single_confirmed)
   \<and> map_of (rows single_confirmed) (hash_transaction toy_codec (toy_tx 2 7)) = None
   \<and> insert_tx toy_codec 1000 (toy_tx 2 7) single_confirmed = (True, malleated_pair)
   \<and> insert_tx toy_codec 1001 (toy_tx 2 7) malleated_pair = (False, malleated_pair)"
proof -
  have u: "unique_keys (rows single_confirmed)"
    by (simp add: unique_keys_def single_confirmed_def)
  have n: "map_of (rows single_confirmed) (hash_transaction toy_codec (toy_tx 2 7)) = None"
    by (simp add: single_confirmed_def toy_codec_def toy_tx_def)
  have e: "insert_tx toy_codec 1000 (toy_tx 2 7) single_confirmed = (True, malleated_pair)"
    by code_simp
  from insert_semantics [OF u, of toy_codec "toy_tx 2 7" 1000 1001]
  have "insert_tx toy_codec 1001 (toy_tx 2 7) (snd (insert_tx toy_codec 1000 (toy_tx 2 7) single_confirmed))
      = (False, snd (insert_tx toy_codec 1000 (toy_tx 2 7) single_confirmed))"
    by blast
  with u n e show ?thesis by simp
qed

subsection \<open>Runs of insert, confirmed and unconfirmed\<close>

lemma consistent_pointwise:
  assumes c: "consistent rs"
    and g: "\<And>k r. (k, r) \<in> set rs \<Longrightarrow>
      txid (G k r) = txid r \<and> ntxid (G k r) = ntxid r \<and> (bMalleated r \<longrightarrow> bMalleated (G k r))"
  shows "consistent (pointwise G rs)"
proof -
  have "cluster_marked (pointwise G rs)"
    unfolding cluster_marked_def set_pointwise
  proof (clarsimp)
    fix k1 r1 k2 r2
    assume a: "(k1, r1) \<in> set rs" "(k2, r2) \<in> set rs" "k1 \<noteq> k2" "ntxid (G k1 r1) = ntxid (G k2 r2)"
    with g [of k1 r1] g [of k2 r2] have "ntxid r1 = ntxid r2" by simp
    with a c have "bMalleated r1 \<and> bMalleated r2"
      unfolding consistent_def cluster_marked_def by blast
    with g [OF a(1)] g [OF a(2)] show "bMalleated (G k1 r1) \<and> bMalleated (G k2 r2)" by simp
  qed
  moreover have "\<forall>(k, r) \<in> set (pointwise G rs). txid r = k"
    using c g unfolding consistent_def set_pointwise by fastforce
  ultimately show ?thesis
    using c by (simp add: consistent_def keys_pointwise)
qed

lemma insert_consistent:
  assumes c: "consistent (rows db)"
  shows "consistent (rows (snd (insert_tx c0 now x db)))"
proof (cases "map_of (rows db) (hash_transaction c0 x) = None")
  case False
  then show ?thesis using c by (auto simp: insert_tx_def Let_def)
next
  case True
  let ?t = "hash_transaction c0 x" and ?n = "makeNtxid c0 x"
  from c have d: "distinct (map fst (rows db))" by (simp add: consistent_def)
  from insert_effect [OF d True, of now]
  obtain H S M where
    res: "insert_tx c0 now x db = (True, db\<lparr>rows := pointwise (insert_mark ?n ?t) (rows db)
            @ [(?t, new_row c0 now x H S M)]\<rparr>)"
    and loc: "has_sibling ?n ?t (rows db) \<longrightarrow> M"
    by (metis (no_types, lifting))
  have p: "consistent (pointwise (insert_mark ?n ?t) (rows db))"
    by (rule consistent_pointwise [OF c]) (simp add: insert_mark_def)
  have fresh: "?t \<notin> fst ` set (rows db)"
    using True by (simp add: map_of_eq_None_iff)
  have keyed: "\<And>k r. (k, r) \<in> set (rows db) \<Longrightarrow> txid r = k \<and> k \<noteq> ?t"
    using c fresh unfolding consistent_def by force
  have old: "\<And>k r. (k, r) \<in> set (pointwise (insert_mark ?n ?t) (rows db)) \<Longrightarrow> ntxid r = ?n
      \<Longrightarrow> bMalleated r \<and> M"
  proof -
    fix k r assume "(k, r) \<in> set (pointwise (insert_mark ?n ?t) (rows db))" "ntxid r = ?n"
    then obtain r0 where r0: "(k, r0) \<in> set (rows db)" "r = insert_mark ?n ?t k r0"
      by (auto simp: set_pointwise)
    with \<open>ntxid r = ?n\<close> have n0: "ntxid r0 = ?n" by (simp add: insert_mark_def split: if_splits)
    with keyed [OF r0(1)] r0 have "bMalleated r" by (simp add: insert_mark_def)
    moreover from n0 keyed [OF r0(1)] r0(1)
    have "has_sibling ?n ?t (rows db)" unfolding has_sibling_def by blast
    with loc have M by simp
    ultimately show "bMalleated r \<and> M" by simp
  qed
  show ?thesis
    unfolding res using p fresh old
    by (auto simp: consistent_def cluster_marked_def keys_pointwise new_row_def)
qed

lemma confirmed_consistent:
  assumes c: "consistent (rows db)" and r: "confirmed_tx t h db = Some db'"
  shows "consistent (rows db')"
proof -
  from c have d: "distinct (map fst (rows db))" by (simp add: consistent_def)
  from r obtain row where present: "map_of (rows db) t = Some row"
    by (cases "map_of (rows db) t") (simp_all add: confirmed_tx_def)
  from r [symmetric] confirmed_effect [OF d present, of h]
  have "Some db' = Some (db\<lparr>rows :=
      pointwise (confirmed_row t h (ntxid row) (has_sibling (ntxid row) t (rows db))) (rows db)\<rparr>)"
    by (rule trans)
  then have "db' = db\<lparr>rows :=
      pointwise (confirmed_row t h (ntxid row) (has_sibling (ntxid row) t (rows db))) (rows db)\<rparr>"
    by (simp only: option.inject)
  then have "rows db' = pointwise (confirmed_row t h (ntxid row) (has_sibling (ntxid row) t (rows db))) (rows db)"
    by simp
  then show ?thesis
    using consistent_pointwise [OF c] by (simp add: Let_def confirmed_row_def)
qed

lemma unconfirmed_consistent:
  assumes c: "consistent (rows db)" and r: "unconfirmed_tx t db = Some db'"
  shows "consistent (rows db')"
proof -
  from c have d: "distinct (map fst (rows db))" by (simp add: consistent_def)
  from r obtain row where present: "map_of (rows db) t = Some row"
    by (cases "map_of (rows db) t") (simp_all add: unconfirmed_tx_def)
  from unconfirmed_effect [OF d present]
  obtain H S M where
    e: "unconfirmed_tx t db = Some (db\<lparr>rows := pointwise (unconfirmed_row t row H S M) (rows db)\<rparr>)"
    and M: "bMalleated row \<longrightarrow> M"
    by blast
  from r [symmetric] e
  have "Some db' = Some (db\<lparr>rows := pointwise (unconfirmed_row t row H S M) (rows db)\<rparr>)"
    by (rule trans)
  then have "db' = db\<lparr>rows := pointwise (unconfirmed_row t row H S M) (rows db)\<rparr>"
    by (simp only: option.inject)
  then have res: "rows db' = pointwise (unconfirmed_row t row H S M) (rows db)"
    by simp
  show ?thesis
    unfolding res
  proof (rule consistent_pointwise [OF c])
    fix k r assume kr: "(k, r) \<in> set (rows db)"
    have "r = row" if "k = t"
    proof -
      from kr that have "(t, r) \<in> set (rows db)" by simp
      moreover from present have "(t, row) \<in> set (rows db)" by (rule map_of_SomeD)
      ultimately show ?thesis by (rule unique_value [OF d])
    qed
    with M have "k = t \<Longrightarrow> bMalleated r \<Longrightarrow> M" by simp
    then show "txid (unconfirmed_row t row H S M k r) = txid r \<and>
      ntxid (unconfirmed_row t row H S M k r) = ntxid r \<and>
      (bMalleated r \<longrightarrow> bMalleated (unconfirmed_row t row H S M k r))"
      by (cases "k = t") (simp_all add: Let_def unconfirmed_row_def)
  qed
qed

lemma perform_consistent:
  "consistent (rows db) \<Longrightarrow> perform c x db = Some db' \<Longrightarrow> consistent (rows db')"
proof (cases x)
  case (Insert now t)
  then show "consistent (rows db) \<Longrightarrow> perform c x db = Some db' \<Longrightarrow> consistent (rows db')"
    using insert_consistent [of db c now t] by auto
next
  case (Confirmed k h)
  then show "consistent (rows db) \<Longrightarrow> perform c x db = Some db' \<Longrightarrow> consistent (rows db')"
    using confirmed_consistent [of db k h db'] by simp
next
  case (Unconfirmed k)
  then show "consistent (rows db) \<Longrightarrow> perform c x db = Some db' \<Longrightarrow> consistent (rows db')"
    using unconfirmed_consistent [of db k db'] by simp
qed

lemma run_consistent:
  "consistent (rows db) \<Longrightarrow> run c xs db = Some db' \<Longrightarrow> consistent (rows db')"
proof (induction xs arbitrary: db)
  case Nil
  then show ?case by simp
next
  case (Cons x xs)
  from Cons.prems(2) obtain db1 where s: "perform c x db = Some db1" and r: "run c xs db1 = Some db'"
    by (auto split: option.splits)
  from perform_consistent [OF Cons.prems(1) s] have "consistent (rows db1)" .
  from Cons.IH [OF this r] show ?case .
qed

text \<open>
  C8. After any run of \<open>insert\<close>, \<open>confirmed\<close> and \<open>unconfirmed\<close> calls from the empty
  database that returns, two rows that share an \<open>ntxid\<close> both carry \<open>malleated = true\<close>.
\<close>

theorem malleated_invariant:
  assumes "run c calls (new_db timeout) = Some db"
  shows "\<forall>(k1, r1) \<in> set (rows db). \<forall>(k2, r2) \<in> set (rows db).
           k1 \<noteq> k2 \<and> ntxid r1 = ntxid r2 \<longrightarrow> bMalleated r1 \<and> bMalleated r2"
proof -
  have "consistent (rows (new_db timeout))"
    by (simp add: consistent_def cluster_marked_def new_db_def)
  from run_consistent [OF this assms] show ?thesis
    by (simp add: consistent_def cluster_marked_def)
qed

theorem malleated_invariant_witness:
  "run toy_codec s3_calls (new_db 60) = Some malleated_pair
   \<and> bMalleated (toy_row 1 7 confirmed 500 True True)
   \<and> bMalleated (toy_row 2 7 confirmed 500 True False)"
  using malleated_invariant [OF s3_run] s3_run
  by (simp add: malleated_pair_def toy_row_def)

lemma masters_pointwise:
  assumes m: "masters S rs"
    and g: "\<And>k r. (k, r) \<in> set rs \<Longrightarrow> bMasterConfirm (G k r) \<longleftrightarrow> bMasterConfirm r \<or> k \<in> T"
    and T: "T \<subseteq> fst ` set rs"
  shows "masters (S \<union> T) (pointwise G rs)"
proof -
  have "\<forall>(k, r) \<in> set (pointwise G rs). bMasterConfirm r \<longleftrightarrow> k \<in> S \<union> T"
    using m g unfolding masters_def set_pointwise by fastforce
  moreover have "fst ` set (pointwise G rs) = fst ` set rs"
    using keys_pointwise [of G rs] by (metis set_map)
  ultimately show ?thesis
    using m T by (simp add: masters_def keys_pointwise)
qed

lemma insert_masters:
  assumes m: "masters S (rows db)"
  shows "masters S (rows (snd (insert_tx c0 now x db)))"
proof (cases "map_of (rows db) (hash_transaction c0 x) = None")
  case False
  then show ?thesis using m by (auto simp: insert_tx_def Let_def)
next
  case True
  let ?t = "hash_transaction c0 x" and ?n = "makeNtxid c0 x"
  from m have d: "distinct (map fst (rows db))" by (simp add: masters_def)
  from insert_effect [OF d True, of now]
  obtain H S' M where
    res: "insert_tx c0 now x db = (True, db\<lparr>rows := pointwise (insert_mark ?n ?t) (rows db)
            @ [(?t, new_row c0 now x H S' M)]\<rparr>)"
    by (metis (no_types, lifting))
  have "masters (S \<union> {}) (pointwise (insert_mark ?n ?t) (rows db))"
    by (rule masters_pointwise [OF m]) (simp_all add: insert_mark_def)
  then have p: "masters S (pointwise (insert_mark ?n ?t) (rows db))" by simp
  have fresh: "?t \<notin> fst ` set (rows db)"
    using True by (simp add: map_of_eq_None_iff)
  have k: "fst ` set (pointwise (insert_mark ?n ?t) (rows db)) = fst ` set (rows db)"
    using keys_pointwise [of "insert_mark ?n ?t" "rows db"] by (metis set_map)
  from p k fresh have "?t \<notin> S" by (auto simp: masters_def)
  with p k fresh show ?thesis
    unfolding res by (auto simp: masters_def keys_pointwise new_row_def)
qed

lemma confirmed_masters:
  assumes m: "masters S (rows db)" and r: "confirmed_tx t h db = Some db'"
  shows "masters (S \<union> {t}) (rows db')"
proof -
  from m have d: "distinct (map fst (rows db))" by (simp add: masters_def)
  from r obtain row where present: "map_of (rows db) t = Some row"
    by (cases "map_of (rows db) t") (simp_all add: confirmed_tx_def)
  from r [symmetric] confirmed_effect [OF d present, of h]
  have "Some db' = Some (db\<lparr>rows :=
      pointwise (confirmed_row t h (ntxid row) (has_sibling (ntxid row) t (rows db))) (rows db)\<rparr>)"
    by (rule trans)
  then have "db' = db\<lparr>rows :=
      pointwise (confirmed_row t h (ntxid row) (has_sibling (ntxid row) t (rows db))) (rows db)\<rparr>"
    by (simp only: option.inject)
  then have res: "rows db' =
      pointwise (confirmed_row t h (ntxid row) (has_sibling (ntxid row) t (rows db))) (rows db)"
    by simp
  from present have "t \<in> fst ` set (rows db)"
    by (metis map_of_SomeD fst_conv image_eqI)
  then show ?thesis
    unfolding res
    by (intro masters_pointwise [OF m]) (auto simp: confirmed_row_def Let_def)
qed

lemma unconfirmed_masters:
  assumes m: "masters S (rows db)" and r: "unconfirmed_tx t db = Some db'"
  shows "masters S (rows db')"
proof -
  from m have d: "distinct (map fst (rows db))" by (simp add: masters_def)
  from r obtain row where present: "map_of (rows db) t = Some row"
    by (cases "map_of (rows db) t") (simp_all add: unconfirmed_tx_def)
  from unconfirmed_effect [OF d present]
  obtain H S' M where
    e: "unconfirmed_tx t db = Some (db\<lparr>rows := pointwise (unconfirmed_row t row H S' M) (rows db)\<rparr>)"
    by blast
  from r [symmetric] e
  have "Some db' = Some (db\<lparr>rows := pointwise (unconfirmed_row t row H S' M) (rows db)\<rparr>)"
    by (rule trans)
  then have "db' = db\<lparr>rows := pointwise (unconfirmed_row t row H S' M) (rows db)\<rparr>"
    by (simp only: option.inject)
  then have res: "rows db' = pointwise (unconfirmed_row t row H S' M) (rows db)"
    by simp
  have "masters (S \<union> {}) (pointwise (unconfirmed_row t row H S' M) (rows db))"
    by (rule masters_pointwise [OF m]) (simp_all add: unconfirmed_row_def Let_def)
  then show ?thesis unfolding res by simp
qed

lemma run_masters:
  "masters S (rows db) \<Longrightarrow> run c xs db = Some db' \<Longrightarrow>
   masters (S \<union> {k. \<exists>h. Confirmed k h \<in> set xs}) (rows db')"
proof (induction xs arbitrary: db S)
  case Nil
  then show ?case by simp
next
  case (Cons x xs)
  from Cons.prems(2) obtain db1 where s: "perform c x db = Some db1" and r: "run c xs db1 = Some db'"
    by (auto split: option.splits)
  show ?case
  proof (cases x)
    case (Insert now t)
    with s have "db1 = snd (insert_tx c now t db)" by simp
    with insert_masters [OF Cons.prems(1)] have "masters S (rows db1)" by simp
    from Cons.IH [OF this r] show ?thesis
      by (simp add: Insert)
  next
    case (Confirmed k h)
    with s have "confirmed_tx k h db = Some db1" by simp
    from confirmed_masters [OF Cons.prems(1) this] have "masters (S \<union> {k}) (rows db1)" .
    from Cons.IH [OF this r]
    have "masters (S \<union> {k} \<union> {k. \<exists>h. Confirmed k h \<in> set xs}) (rows db')" .
    moreover have "S \<union> {k} \<union> {k. \<exists>h. Confirmed k h \<in> set xs}
        = S \<union> {k'. \<exists>h. Confirmed k' h \<in> set (x # xs)}"
      by (auto simp: Confirmed)
    ultimately show ?thesis by simp
  next
    case (Unconfirmed k)
    with s have "unconfirmed_tx k db = Some db1" by simp
    from unconfirmed_masters [OF Cons.prems(1) this] have "masters S (rows db1)" .
    from Cons.IH [OF this r] show ?thesis
      by (simp add: Unconfirmed)
  qed
qed

text \<open>
  C3, as amended. After a run of \<open>insert\<close>, \<open>confirmed\<close> and \<open>unconfirmed\<close> calls from the
  empty database that returns, the rows with \<open>master_confirm = true\<close> are exactly those
  whose \<open>txid\<close> has been passed to \<open>confirmed\<close> during the run: the flag is set by
  \<open>confirmed\<close> on the row it is called for and is never cleared. So a cluster has at most
  one such row as long as \<open>confirmed\<close> was called for at most one of its transactions.
  In a database with unique keys where M1 and M2 are stored under different keys with
  one \<open>ntxid\<close>, \<open>confirmed(M1.txid, h)\<close> returns and leaves both rows confirmed at height
  \<open>h\<close> and malleated, sets \<open>master_confirm\<close> on M1 and leaves that of M2 as it was.
\<close>

theorem master_confirm_characterised:
  "(run c calls (new_db timeout) = Some db \<longrightarrow>
      (\<forall>(k, r) \<in> set (rows db). bMasterConfirm r \<longleftrightarrow> (\<exists>h. Confirmed k h \<in> set calls)))
   \<and> (unique_keys (rows db0) \<and> map_of (rows db0) k1 = Some m1 \<and> map_of (rows db0) k2 = Some m2
        \<and> k1 \<noteq> k2 \<and> txid m2 \<noteq> k1 \<and> ntxid m2 = ntxid m1 \<longrightarrow>
      (\<exists>db'. confirmed_tx k1 h db0 = Some db'
         \<and> map_of (rows db') k1 =
             Some (m1\<lparr>state := confirmed, block_height := h, bMasterConfirm := True, bMalleated := True\<rparr>)
         \<and> map_of (rows db') k2 =
             Some (m2\<lparr>state := confirmed, block_height := h, bMalleated := True\<rparr>)))"
proof (intro conjI impI)
  assume r: "run c calls (new_db timeout) = Some db"
  have "masters {} (rows (new_db timeout))"
    by (simp add: masters_def new_db_def)
  from run_masters [OF this r]
  show "\<forall>(k, r) \<in> set (rows db). bMasterConfirm r \<longleftrightarrow> (\<exists>h. Confirmed k h \<in> set calls)"
    by (simp add: masters_def)
next
  assume a: "unique_keys (rows db0) \<and> map_of (rows db0) k1 = Some m1 \<and> map_of (rows db0) k2 = Some m2
        \<and> k1 \<noteq> k2 \<and> txid m2 \<noteq> k1 \<and> ntxid m2 = ntxid m1"
  then have d: "distinct (map fst (rows db0))" and p: "map_of (rows db0) k1 = Some m1"
    by (simp_all add: unique_keys_def)
  from a have "(k2, m2) \<in> set (rows db0)" by (blast dest: map_of_SomeD)
  with a have sib: "has_sibling (ntxid m1) k1 (rows db0)"
    unfolding has_sibling_def by blast
  let ?db' = "db0\<lparr>rows :=
      pointwise (confirmed_row k1 h (ntxid m1) (has_sibling (ntxid m1) k1 (rows db0))) (rows db0)\<rparr>"
  have e: "confirmed_tx k1 h db0 = Some ?db'"
    by (rule confirmed_effect [OF d p])
  have r1: "map_of (rows ?db') k1 =
      Some (m1\<lparr>state := confirmed, block_height := h, bMasterConfirm := True, bMalleated := True\<rparr>)"
    using p sib by (simp add: map_of_pointwise confirmed_row_def Let_def)
  have r2: "map_of (rows ?db') k2 =
      Some (m2\<lparr>state := confirmed, block_height := h, bMalleated := True\<rparr>)"
  proof -
    from a have "k2 \<noteq> k1" "txid m2 \<noteq> k1" "ntxid m2 = ntxid m1" "map_of (rows db0) k2 = Some m2"
      by auto
    then show ?thesis
      by (simp add: map_of_pointwise confirmed_row_def Let_def)
  qed
  from e r1 r2
  show "\<exists>db'. confirmed_tx k1 h db0 = Some db'
         \<and> map_of (rows db') k1 =
             Some (m1\<lparr>state := confirmed, block_height := h, bMasterConfirm := True, bMalleated := True\<rparr>)
         \<and> map_of (rows db') k2 =
             Some (m2\<lparr>state := confirmed, block_height := h, bMalleated := True\<rparr>)"
    by blast
qed

theorem master_confirm_characterised_witness:
  "run toy_codec s3_calls (new_db 60) = Some malleated_pair
   \<and> bMasterConfirm (toy_row 1 7 confirmed 500 True True)
   \<and> \<not> bMasterConfirm (toy_row 2 7 confirmed 500 True False)
   \<and> unique_keys (rows inserted_pair)
   \<and> map_of (rows inserted_pair) 1 = Some (toy_row 1 7 unconfirmed 0 True False)
   \<and> map_of (rows inserted_pair) 2 = Some (toy_row 2 7 unconfirmed 0 True False)
   \<and> (\<exists>db'. confirmed_tx 1 500 inserted_pair = Some db'
         \<and> map_of (rows db') 1 = Some (toy_row 1 7 confirmed 500 True True)
         \<and> map_of (rows db') 2 = Some (toy_row 2 7 confirmed 500 True False))"
proof -
  let ?m1 = "toy_row 1 7 unconfirmed 0 True False" and ?m2 = "toy_row 2 7 unconfirmed 0 True False"
  note t = master_confirm_characterised
    [of toy_codec s3_calls 60 malleated_pair inserted_pair 1 ?m1 2 ?m2 500]
  from t s3_run
  have m: "\<forall>(k, r) \<in> set (rows malleated_pair). bMasterConfirm r \<longleftrightarrow> (\<exists>h. Confirmed k h \<in> set s3_calls)"
    by blast
  have h: "unique_keys (rows inserted_pair) \<and> map_of (rows inserted_pair) 1 = Some ?m1
      \<and> map_of (rows inserted_pair) 2 = Some ?m2 \<and> (1 :: hash_digest) \<noteq> 2 \<and> txid ?m2 \<noteq> 1
      \<and> ntxid ?m2 = ntxid ?m1"
    by (simp add: unique_keys_def inserted_pair_def toy_row_def)
  with t have "\<exists>db'. confirmed_tx 1 500 inserted_pair = Some db'
         \<and> map_of (rows db') 1 =
             Some (?m1\<lparr>state := confirmed, block_height := 500, bMasterConfirm := True, bMalleated := True\<rparr>)
         \<and> map_of (rows db') 2 =
             Some (?m2\<lparr>state := confirmed, block_height := 500, bMalleated := True\<rparr>)"
    by blast
  then have c: "\<exists>db'. confirmed_tx 1 500 inserted_pair = Some db'
         \<and> map_of (rows db') 1 = Some (toy_row 1 7 confirmed 500 True True)
         \<and> map_of (rows db') 2 = Some (toy_row 2 7 confirmed 500 True False)"
    by (simp add: toy_row_def)
  from m have "bMasterConfirm (toy_row 1 7 confirmed 500 True True)
      \<and> \<not> bMasterConfirm (toy_row 2 7 confirmed 500 True False)"
    by (simp add: toy_row_def)
  with s3_run h c show ?thesis by simp
qed

text \<open>
  C3 as it is stated fails: when scenario S3 is followed by \<open>confirmed(M2.txid, 501)\<close>,
  both rows of the cluster have \<open>master_confirm = true\<close>.
\<close>

theorem single_master_counterexample:
  "map_option (\<lambda>db. map (\<lambda>(k, row). (k, ntxid row, bMasterConfirm row)) (rows db)) two_masters
     = Some [(1, 7, True), (2, 7, True)]"
  unfolding two_masters_def by code_simp

subsection \<open>The double-spend filter\<close>

lemma safe_unfold:
  "\<not> unsafe rs ds t \<longleftrightarrow>
     (case map_of rs t of
        None \<Rightarrow> True
      | Some row \<Rightarrow> state row = confirmed \<or>
          (\<forall>input \<in> set (inputs (tx row)).
             previous_output input \<notin> ds \<and> \<not> unsafe rs ds (hash (previous_output input))))"
  by (auto simp: unsafe.simps [of rs ds t] split: option.splits)

lemma sound_upd: "sound rs ds v \<Longrightarrow> b = (\<not> unsafe rs ds t) \<Longrightarrow> sound rs ds (v(t \<mapsto> b))"
  by (simp add: sound_def)

lemma sound_empty: "sound rs ds Map.empty"
  by (simp add: sound_def)

lemma isSafe_sound:
  "isSafe n rs ds t v = Some (b, v') \<Longrightarrow> sound rs ds v \<Longrightarrow>
     b = (\<not> unsafe rs ds t) \<and> sound rs ds v'"
  "isSafe_inputs n rs ds ins v = Some (b, v') \<Longrightarrow> sound rs ds v \<Longrightarrow>
     sound rs ds v' \<and>
     b = (\<forall>i \<in> set ins. previous_output i \<notin> ds \<and> \<not> unsafe rs ds (hash (previous_output i)))"
proof (induction n rs ds t v and n rs ds ins v arbitrary: b v' and b v' rule: isSafe_isSafe_inputs.induct)
  case (1 rs ds t visited)
  then show ?case by simp
next
  case (2 n rs ds t visited)
  show ?case
  proof (cases "visited t")
    case (Some b0)
    with "2.prems" show ?thesis by (auto simp: sound_def)
  next
    case None
    note vis = None
    show ?thesis
    proof (cases "map_of rs t")
      case None
      with vis "2.prems" have bv: "b = True" "v' = visited(t \<mapsto> True)" by auto
      from None have u: "\<not> unsafe rs ds t" by (simp add: safe_unfold)
      from "2.prems"(2) u have "sound rs ds (visited(t \<mapsto> True))"
        by (intro sound_upd) simp_all
      with bv u show ?thesis by blast
    next
      case (Some row)
      show ?thesis
      proof (cases "confirmed = state row")
        case True
        with vis Some "2.prems" have bv: "b = True" "v' = visited(t \<mapsto> True)" by auto
        from Some True have u: "\<not> unsafe rs ds t" by (simp add: safe_unfold)
        from "2.prems"(2) u have "sound rs ds (visited(t \<mapsto> True))"
          by (intro sound_upd) simp_all
        with bv u show ?thesis by blast
      next
        case False
        with vis Some "2.prems"(1) obtain v1 where
          l: "isSafe_inputs n rs ds (inputs (tx row)) visited = Some (b, v1)" and v': "v' = v1(t \<mapsto> b)"
          by (auto split: option.splits)
        from "2.IH" [OF vis Some False l "2.prems"(2)]
        have s1: "sound rs ds v1"
          and b: "b = (\<forall>i \<in> set (inputs (tx row)).
             previous_output i \<notin> ds \<and> \<not> unsafe rs ds (hash (previous_output i)))"
          by simp_all
        from Some False b have bt: "b = (\<not> unsafe rs ds t)"
          by (auto simp: safe_unfold [of rs ds t])
        from s1 bt have "sound rs ds (v1(t \<mapsto> b))"
          by (rule sound_upd)
        with bt v' show ?thesis by blast
      qed
    qed
  qed
next
  case (3 n rs ds visited)
  then show ?case by simp
next
  case (4 n rs ds input rest visited)
  show ?case
  proof (cases "previous_output input \<in> ds")
    case True
    with "4.prems" show ?thesis by auto
  next
    case False
    with "4.prems"(1) obtain b1 v1 where
      c: "isSafe n rs ds (hash (previous_output input)) visited = Some (b1, v1)"
      by (auto split: option.splits)
    from "4.IH"(1) [OF False c "4.prems"(2)]
    have b1: "b1 = (\<not> unsafe rs ds (hash (previous_output input)))" and s1: "sound rs ds v1"
      by simp_all
    show ?thesis
    proof (cases b1)
      case False
      with \<open>previous_output input \<notin> ds\<close> c "4.prems"(1) have "b = False" "v' = v1" by auto
      with b1 False s1 show ?thesis by auto
    next
      case True
      with \<open>previous_output input \<notin> ds\<close> c "4.prems"(1)
      have r: "isSafe_inputs n rs ds rest v1 = Some (b, v')" by simp
      have "\<not> \<not> b1" using True by simp
      from "4.IH"(2) [OF \<open>previous_output input \<notin> ds\<close> c refl this r s1] b1 True
        \<open>previous_output input \<notin> ds\<close>
      show ?thesis by auto
    qed
  qed
qed

lemma finite_sources: "finite (sources rs)"
proof -
  have "sources rs \<subseteq> (\<Union>(k, row) \<in> set rs. (\<lambda>i. (hash (previous_output i), k)) ` set (inputs (tx row)))"
    by (auto simp: sources_def dest!: map_of_SomeD)
  moreover have "finite (\<Union>(k, row) \<in> set rs. (\<lambda>i. (hash (previous_output i), k)) ` set (inputs (tx row)))"
    by auto
  ultimately show ?thesis by (rule finite_subset)
qed

lemma uniform_bound:
  "(\<forall>x \<in> set xs. \<exists>n. \<forall>m\<ge>n. Q x (m :: nat)) \<Longrightarrow> \<exists>N. \<forall>m\<ge>N. \<forall>x \<in> set xs. Q x m"
proof (induction xs)
  case Nil
  then show ?case by simp
next
  case (Cons x xs)
  then obtain N where N: "\<forall>m\<ge>N. \<forall>x \<in> set xs. Q x m" by auto
  from Cons.prems obtain n where n: "\<forall>m\<ge>n. Q x m" by auto
  have "\<forall>m\<ge>max n N. \<forall>y \<in> set (x # xs). Q y m"
    using N n by auto
  then show ?case by blast
qed

lemma isSafe_inputs_returns:
  "(\<forall>i \<in> set ins. previous_output i \<in> ds \<or> (\<forall>v. isSafe n rs ds (hash (previous_output i)) v \<noteq> None))
   \<Longrightarrow> isSafe_inputs n rs ds ins v \<noteq> None"
proof (induction ins arbitrary: v)
  case Nil
  then show ?case by simp
next
  case (Cons i ins)
  show ?case
  proof (cases "previous_output i \<in> ds")
    case True
    then show ?thesis by simp
  next
    case False
    with Cons.prems obtain b v1 where c: "isSafe n rs ds (hash (previous_output i)) v = Some (b, v1)"
      by fastforce
    from Cons.IH [of v1] Cons.prems have "isSafe_inputs n rs ds ins v1 \<noteq> None" by simp
    with False c show ?thesis by (cases b) simp_all
  qed
qed

lemma isSafe_returns_at:
  assumes "acyclic (sources rs)"
  shows "\<exists>n. \<forall>m\<ge>n. \<forall>v. isSafe m rs ds t v \<noteq> None"
proof -
  from finite_sources assms have "wf (sources rs)" by (rule finite_acyclic_wf)
  then show ?thesis
  proof (induction t rule: wf_induct_rule)
    case (less t)
    show ?case
    proof (cases "map_of rs t")
      case None
      then have "\<forall>m\<ge>1. \<forall>v. isSafe m rs ds t v \<noteq> None"
        by (auto simp: Suc_le_eq gr0_conv_Suc split: option.splits)
      then show ?thesis by blast
    next
      case (Some row)
      show ?thesis
      proof (cases "confirmed = state row")
        case True
        with Some have "\<forall>m\<ge>1. \<forall>v. isSafe m rs ds t v \<noteq> None"
          by (auto simp: Suc_le_eq gr0_conv_Suc split: option.splits)
        then show ?thesis by blast
      next
        case False
        have "\<forall>i \<in> set (inputs (tx row)). \<exists>n. \<forall>m\<ge>n. \<forall>v. isSafe m rs ds (hash (previous_output i)) v \<noteq> None"
        proof
          fix i assume "i \<in> set (inputs (tx row))"
          with Some False have "(hash (previous_output i), t) \<in> sources rs"
            by (auto simp: sources_def)
          then show "\<exists>n. \<forall>m\<ge>n. \<forall>v. isSafe m rs ds (hash (previous_output i)) v \<noteq> None"
            by (rule less.IH)
        qed
        from uniform_bound [OF this] obtain N where
          N: "\<forall>m\<ge>N. \<forall>i \<in> set (inputs (tx row)). \<forall>v. isSafe m rs ds (hash (previous_output i)) v \<noteq> None"
          by blast
        have "isSafe m rs ds t v \<noteq> None" if "m \<ge> Suc N" for m v
        proof -
          from that obtain m' where m: "m = Suc m'" "m' \<ge> N"
            by (cases m) auto
          from N m(2) have "isSafe_inputs m' rs ds (inputs (tx row)) v \<noteq> None"
            by (intro isSafe_inputs_returns) blast
          with Some False show ?thesis
            by (auto simp: m(1) split: option.splits)
        qed
        then show ?thesis by blast
      qed
    qed
  qed
qed

lemma isSafe_returns:
  assumes "acyclic (sources rs)"
  shows "\<exists>N. \<forall>m\<ge>N. \<forall>t v. isSafe m rs ds t v \<noteq> None"
proof -
  have "\<forall>t \<in> set (map fst rs). \<exists>n. \<forall>m\<ge>n. \<forall>v. isSafe m rs ds t v \<noteq> None"
    using isSafe_returns_at [OF assms] by blast
  from uniform_bound [OF this] obtain N where
    N: "\<forall>m\<ge>N. \<forall>t \<in> set (map fst rs). \<forall>v. isSafe m rs ds t v \<noteq> None"
    by blast
  have "isSafe m rs ds t v \<noteq> None" if "m \<ge> max N 1" for m t v
  proof (cases "map_of rs t")
    case None
    from that obtain m' where "m = Suc m'" by (cases m) auto
    with None show ?thesis by (auto split: option.splits)
  next
    case (Some row)
    then have "t \<in> set (map fst rs)"
      by (metis map_of_eq_None_iff option.distinct(1) set_map)
    with N that show ?thesis by (meson max.boundedE)
  qed
  then show ?thesis by blast
qed

lemma populate_sound:
  "populate n rs ds ts v = Some v' \<Longrightarrow> sound rs ds v \<Longrightarrow> sound rs ds v'"
proof (induction ts arbitrary: v)
  case Nil
  then show ?case by simp
next
  case (Cons t ts)
  from Cons.prems(1) obtain b v1 where c: "isSafe n rs ds t v = Some (b, v1)"
    and r: "populate n rs ds ts v1 = Some v'"
    by (auto split: option.splits)
  from isSafe_sound(1) [OF c Cons.prems(2)] have "sound rs ds v1" by simp
  from Cons.IH [OF r this] show ?case .
qed

lemma populate_returns:
  "\<forall>t v. isSafe n rs ds t v \<noteq> None \<Longrightarrow> populate n rs ds ts v \<noteq> None"
proof (induction ts arbitrary: v)
  case Nil
  then show ?case by simp
next
  case (Cons t ts)
  from Cons.prems obtain b v1 where "isSafe n rs ds t v = Some (b, v1)" by fastforce
  with Cons.IH [OF Cons.prems, of v1] show ?case by simp
qed

lemma acyclic_rank:
  assumes "\<And>s t. (s, t) \<in> r \<Longrightarrow> f s < (f t :: nat)"
  shows "acyclic r"
proof -
  have "r \<subseteq> measure f" using assms by auto
  then have "wf r" by (rule wf_subset [OF wf_measure])
  then show ?thesis by (rule wf_acyclic)
qed

lemma acyclic_poisoned: "acyclic (sources poisoned)"
proof (rule acyclic_rank [where f = unat])
  fix s t assume "(s, t) \<in> sources poisoned"
  then show "unat s < unat t"
    by (auto simp: sources_def poisoned_def graph_row_def spend_def split: if_splits)
qed

text \<open>On a snapshot with a cycle the recursion never returns, whatever the depth allowed.\<close>

lemma isSafe_cycle_diverges: "isSafe n self_spend {} 1 Map.empty = None"
  by (induction n) (simp_all add: self_spend_def graph_row_def spend_def unconfirmed_def confirmed_def)

text \<open>
  C9. Whatever calls of \<open>isSafe\<close> filled the memo table before, in whatever order, a
  call of \<open>isSafe\<close> that returns returns the value of the reference: the transaction is
  safe, that is, not unsafe. When the transaction graph of the snapshot is acyclic, all
  these calls return (at every depth of recursion from some depth on). And the
  reference satisfies the recursive definition: a transaction is safe exactly when it
  is not stored, or its row is confirmed, or no input spends a contested outpoint or
  comes from an unsafe transaction.
\<close>

theorem isSafe_reference:
  "(populate n rs ds prior Map.empty = Some v \<and> isSafe m rs ds t v = Some (b, v')
      \<longrightarrow> b = (\<not> unsafe rs ds t))
   \<and> (acyclic (sources rs) \<longrightarrow>
        (\<exists>N. \<forall>m\<ge>N. \<forall>prior t. \<exists>v v'. populate m rs ds prior Map.empty = Some v
            \<and> isSafe m rs ds t v = Some (\<not> unsafe rs ds t, v')))
   \<and> (\<not> unsafe rs ds t \<longleftrightarrow>
        (case map_of rs t of
           None \<Rightarrow> True
         | Some row \<Rightarrow> state row = confirmed \<or>
             (\<forall>input \<in> set (inputs (tx row)).
                previous_output input \<notin> ds \<and> \<not> unsafe rs ds (hash (previous_output input)))))"
proof (intro conjI impI)
  assume a: "populate n rs ds prior Map.empty = Some v \<and> isSafe m rs ds t v = Some (b, v')"
  then have "sound rs ds v"
    using populate_sound [of n rs ds prior Map.empty v] sound_empty by blast
  with a isSafe_sound(1) [of m rs ds t v b v'] show "b = (\<not> unsafe rs ds t)" by blast
next
  assume "acyclic (sources rs)"
  from isSafe_returns [OF this, of ds] obtain N where
    N: "\<forall>m\<ge>N. \<forall>t v. isSafe m rs ds t v \<noteq> None" by blast
  have "\<exists>v v'. populate m rs ds prior Map.empty = Some v
            \<and> isSafe m rs ds t v = Some (\<not> unsafe rs ds t, v')" if "m \<ge> N" for m prior t
  proof -
    from N that have all: "\<forall>t v. isSafe m rs ds t v \<noteq> None" by blast
    from populate_returns [OF all] obtain v where p: "populate m rs ds prior Map.empty = Some v"
      by blast
    from all obtain b v' where c: "isSafe m rs ds t v = Some (b, v')" by fastforce
    from populate_sound [OF p sound_empty] have "sound rs ds v" .
    from isSafe_sound(1) [OF c this] have "b = (\<not> unsafe rs ds t)" by simp
    with p c show ?thesis by blast
  qed
  then show "\<exists>N. \<forall>m\<ge>N. \<forall>prior t. \<exists>v v'. populate m rs ds prior Map.empty = Some v
            \<and> isSafe m rs ds t v = Some (\<not> unsafe rs ds t, v')"
    by blast
next
  show "\<not> unsafe rs ds t \<longleftrightarrow>
        (case map_of rs t of
           None \<Rightarrow> True
         | Some row \<Rightarrow> state row = confirmed \<or>
             (\<forall>input \<in> set (inputs (tx row)).
                previous_output input \<notin> ds \<and> \<not> unsafe rs ds (hash (previous_output input))))"
    by (rule safe_unfold)
qed

theorem isSafe_reference_witness:
  "acyclic (sources poisoned)
   \<and> map_option fst (isSafe 3 poisoned contested 4 Map.empty) = Some False
   \<and> unsafe poisoned contested 4
   \<and> (\<exists>N. \<forall>m\<ge>N. \<forall>prior t. \<exists>v v'. populate m poisoned contested prior Map.empty = Some v
            \<and> isSafe m poisoned contested t v = Some (\<not> unsafe poisoned contested t, v'))"
proof -
  note t = isSafe_reference [of 0 poisoned contested "[]" Map.empty 3 4 False]
  have e: "map_option fst (isSafe 3 poisoned contested 4 Map.empty) = Some False"
    by code_simp
  then obtain v' where "isSafe 3 poisoned contested 4 Map.empty = Some (False, v')"
    by (cases "isSafe 3 poisoned contested 4 Map.empty") auto
  with t [of v'] have u: "unsafe poisoned contested 4" by simp
  from t acyclic_poisoned
  have "\<exists>N. \<forall>m\<ge>N. \<forall>prior t. \<exists>v v'. populate m poisoned contested prior Map.empty = Some v
            \<and> isSafe m poisoned contested t v = Some (\<not> unsafe poisoned contested t, v')"
    by blast
  with acyclic_poisoned e u show ?thesis by blast
qed

subsection \<open>The serializer\<close>

lemma length_to_little_endian: "length (to_little_endian n w) = n"
  by (induction n arbitrary: w) auto

lemma from_to_little_endian:
  "(from_little_endian (to_little_endian n w) :: 'a::len word) = take_bit (8 * n) (w :: 'a word)"
proof (induction n arbitrary: w)
  case 0
  then show ?case by simp
next
  case (Suc n)
  have "(from_little_endian (to_little_endian (Suc n) w) :: 'a word)
      = ucast (ucast w :: byte) OR push_bit 8 (take_bit (8 * n) (drop_bit 8 w))"
    by (simp add: Suc.IH)
  also have "\<dots> = take_bit (8 * Suc n) w"
    by (rule bit_word_eqI) (auto simp: bit_simps)
  finally show ?case .
qed

lemma read_write_4_bytes: "read_4_bytes (write_4_bytes w @ rest) = Some (w, rest)"
proof -
  have "(from_little_endian (to_little_endian 4 w) :: 32 word) = w"
    by (simp add: from_to_little_endian take_bit_word_eq_self)
  then show ?thesis
    by (simp add: read_4_bytes_def write_4_bytes_def read_bytes_def length_to_little_endian)
qed

lemma read_write_8_bytes: "read_8_bytes (write_8_bytes w @ rest) = Some (w, rest)"
proof -
  have "(from_little_endian (to_little_endian 8 w) :: 64 word) = w"
    by (simp add: from_to_little_endian take_bit_word_eq_self)
  then show ?thesis
    by (simp add: read_8_bytes_def write_8_bytes_def read_bytes_def length_to_little_endian)
qed

lemma read_write_hash: "read_hash (write_hash w @ rest) = Some (w, rest)"
proof -
  have "(from_little_endian (to_little_endian 32 w) :: 256 word) = w"
    by (simp add: from_to_little_endian take_bit_word_eq_self)
  then show ?thesis
    by (simp add: read_hash_def write_hash_def read_bytes_def length_to_little_endian)
qed

lemma read_write_byte: "read_byte (b # rest) = Some (b, rest)"
  by (simp add: read_byte_def)

lemma bool_of_byte_of_bool: "bool_of_byte (byte_of_bool b) = b"
  by (simp add: bool_of_byte_def byte_of_bool_def)

lemma length_write_4_bytes: "length (write_4_bytes w) = 4"
  by (simp add: write_4_bytes_def length_to_little_endian)

lemma toy_codec_exact: "codec_exact toy_codec (toy_tx v l)"
  by (simp add: codec_exact_def toy_codec_def toy_tx_def read_write_4_bytes length_write_4_bytes)

lemma read_row_tail_written:
  "read_row_tail now k t
     ([st] @ write_8_bytes h @ [byte_of_bool nc] @ write_hash ti @ write_hash nt
      @ [byte_of_bool mal] @ [byte_of_bool mc] @ rest)
   = Some ((k, \<lparr>tx = t, txid = ti, ntxid = nt, state = st, block_height = h,
                timestamp = (if unconfirmed = st then h else now),
                bMalleated = mal, bMasterConfirm = mc, need_check = nc\<rparr>), rest)"
  by (simp add: read_row_tail_def read_write_byte read_write_8_bytes read_write_hash
      bool_of_byte_of_bool)

lemma read_row_head_written:
  "codec_exact c t \<Longrightarrow>
   read_row_head c (write_hash k @ satoshi_save c t @ rest) = Some (k, t, satoshi_save c t @ rest)"
  by (simp add: read_row_head_def read_write_hash codec_exact_def)

lemma read_row_written:
  assumes "codec_exact c (tx row)"
  shows "read_row c now (serialize_row c (k, row) @ rest) = Row (k, reloaded now row) rest"
proof -
  define h where "h = (if unconfirmed = state row then timestamp row else block_height row)"
  define tail where "tail = [state row] @ write_8_bytes h @ [byte_of_bool (need_check row)]
      @ write_hash (txid row) @ write_hash (ntxid row)
      @ [byte_of_bool (bMalleated row)] @ [byte_of_bool (bMasterConfirm row)] @ rest"
  define body where "body = satoshi_save c (tx row) @ tail"
  have s: "serialize_row c (k, row) @ rest = serial_tx # (write_hash k @ body)"
    by (simp add: serialize_row_def Let_def h_def tail_def body_def)
  have b: "read_byte (serial_tx # (write_hash k @ body)) = Some (serial_tx, write_hash k @ body)"
    by (rule read_write_byte)
  have hd: "read_row_head c (write_hash k @ body) = Some (k, tx row, body)"
    unfolding body_def by (rule read_row_head_written [OF assms])
  have size: "satoshi_raw_size c (tx row) = length (satoshi_save c (tx row))"
    using assms by (simp add: codec_exact_def)
  have d: "drop (satoshi_raw_size c (tx row)) body = tail" "\<not> length body < satoshi_raw_size c (tx row)"
    by (simp_all add: size body_def)
  have "read_row_tail now k (tx row) tail
      = Some ((k, \<lparr>tx = tx row, txid = txid row, ntxid = ntxid row, state = state row, block_height = h,
                timestamp = (if unconfirmed = state row then h else now),
                bMalleated = bMalleated row, bMasterConfirm = bMasterConfirm row,
                need_check = need_check row\<rparr>), rest)"
    unfolding tail_def by (rule read_row_tail_written)
  also have "\<lparr>tx = tx row, txid = txid row, ntxid = ntxid row, state = state row, block_height = h,
                timestamp = (if unconfirmed = state row then h else now),
                bMalleated = bMalleated row, bMasterConfirm = bMasterConfirm row,
                need_check = need_check row\<rparr> = reloaded now row"
    by (simp add: reloaded_def h_def)
  finally have t: "read_row_tail now k (tx row) tail = Some ((k, reloaded now row), rest)" .
  show ?thesis
    unfolding s read_row_def b by (simp add: hd d t)
qed

lemma serialize_row_not_empty: "serialize_row c x @ rest \<noteq> []"
  by (cases x) (simp add: serialize_row_def Let_def)

lemma load_rows_written:
  "\<forall>(k, row) \<in> set rs. codec_exact c (tx row) \<Longrightarrow>
   load_rows c now (concat (map (serialize_row c) rs)) acc
     = Some (Inr (fold assign (map (\<lambda>(k, row). (k, reloaded now row)) rs) acc))"
proof (induction rs arbitrary: acc)
  case Nil
  then show ?case by (simp add: load_rows.simps)
next
  case (Cons x rs)
  obtain k row where x: "x = (k, row)" by (cases x)
  from Cons.prems have e: "codec_exact c (tx row)" and r: "\<forall>(k, row) \<in> set rs. codec_exact c (tx row)"
    by (auto simp: x)
  have "load_rows c now (serialize_row c (k, row) @ concat (map (serialize_row c) rs)) acc
      = load_rows c now (concat (map (serialize_row c) rs)) (assign (k, reloaded now row) acc)"
  proof -
    have ne: "serialize_row c (k, row) @ concat (map (serialize_row c) rs) \<noteq> []"
      by (rule serialize_row_not_empty)
    show ?thesis
      by (subst load_rows.simps) (simp only: ne if_False read_row_written [OF e] row_result.case)
  qed
  with Cons.IH [OF r] show ?case by (simp add: x)
qed

lemma fold_assign_fresh:
  "distinct (map fst (acc @ xs)) \<Longrightarrow> fold assign xs acc = acc @ xs"
proof (induction xs arbitrary: acc)
  case Nil
  then show ?case by simp
next
  case (Cons x xs)
  obtain k r where x: "x = (k, r)" by (cases x)
  from Cons.prems have "k \<notin> fst ` set acc" by (auto simp: x)
  then have "map_of acc k = None" by (simp add: map_of_eq_None_iff)
  then have "assign x acc = acc @ [x]" by (simp add: assign_def x)
  moreover from Cons.prems have "distinct (map fst ((acc @ [x]) @ xs))" by simp
  ultimately show ?case using Cons.IH [of "acc @ [x]"] by simp
qed

lemma keys_reloaded: "map fst (map (\<lambda>(k, row). (k, reloaded now row)) rs) = map fst rs"
  by (induction rs) auto

text \<open>
  C1. For a database with unique keys whose transactions the codec reads back as it
  wrote them, \<open>load\<close> of what \<open>serialize\<close> wrote succeeds, into any database: its
  \<open>last_height\<close> becomes the one saved, and its rows are the saved rows without the
  unconfirmed rows that the stale policy purged (\<open>timestamp + unconfirmed_timeout < now\<close>
  at the time of saving), each under its key and as \<open>reloaded\<close> describes it: \<open>tx\<close>,
  \<open>txid\<close>, \<open>ntxid\<close>, \<open>state\<close>, \<open>need_check\<close>, \<open>malleated\<close> and \<open>master_confirm\<close> are those
  saved, and so are the \<open>block_height\<close> of a confirmed row and the \<open>timestamp\<close> of an
  unconfirmed one.
\<close>

theorem round_trip:
  assumes "unique_keys (rows db)"
    and "\<forall>(k, row) \<in> set (rows db). codec_exact c (tx row)"
  shows "load c now' (serialize c now db) db0 =
      Some (None, db0\<lparr>last_height := last_height db,
        rows := map (\<lambda>(k, row). (k, reloaded now' row))
          (filter (\<lambda>(k, row). \<not> purged now (unconfirmed_timeout db) row) (rows db))\<rparr>)
    \<and> (\<forall>row. tx (reloaded now' row) = tx row \<and> txid (reloaded now' row) = txid row
          \<and> ntxid (reloaded now' row) = ntxid row \<and> state (reloaded now' row) = state row
          \<and> need_check (reloaded now' row) = need_check row
          \<and> bMalleated (reloaded now' row) = bMalleated row
          \<and> bMasterConfirm (reloaded now' row) = bMasterConfirm row
          \<and> (state row = confirmed \<longrightarrow> block_height (reloaded now' row) = block_height row)
          \<and> (state row = unconfirmed \<longrightarrow> timestamp (reloaded now' row) = timestamp row))"
proof -
  let ?kept = "filter (\<lambda>(k, row). \<not> purged now (unconfirmed_timeout db) row) (rows db)"
  let ?new = "map (\<lambda>(k, row). (k, reloaded now' row)) ?kept"
  from assms(2) have e: "\<forall>(k, row) \<in> set ?kept. codec_exact c (tx row)" by auto
  from assms(1) have "distinct (map fst ?kept)"
    unfolding unique_keys_def by (rule distinct_map_filter)
  then have "distinct (map fst ?new)" by (simp only: keys_reloaded)
  then have "distinct (map fst ([] @ ?new))" by (simp only: append_Nil)
  then have f: "fold assign ?new [] = ?new" using fold_assign_fresh [of "[]" ?new] by simp
  have l: "load_rows c now' (concat (map (serialize_row c) ?kept)) [] = Some (Inr ?new)"
    using load_rows_written [OF e, of now' "[]"] f by simp
  have "load c now' (serialize c now db) db0 = Some (None, db0\<lparr>last_height := last_height db, rows := ?new\<rparr>)"
    unfolding load_def serialize_def
    by (simp add: read_write_4_bytes read_write_8_bytes l del: append.simps)
  moreover have "confirmed \<noteq> unconfirmed" by (simp add: confirmed_def unconfirmed_def)
  ultimately show ?thesis
    by (auto simp: reloaded_def)
qed

theorem round_trip_witness:
  "unique_keys (rows stale_and_confirmed)
   \<and> list_all (\<lambda>(k, row). codec_exact toy_codec (tx row)) (rows stale_and_confirmed)
   \<and> load toy_codec 3000 (serialize toy_codec 2000 stale_and_confirmed) (new_db 5) =
       Some (None, \<lparr>rows = [(1, (toy_row 1 7 confirmed 500 True True)\<lparr>timestamp := 3000\<rparr>)],
                    last_height = 100, unconfirmed_timeout = 5\<rparr>)"
proof -
  have u: "unique_keys (rows stale_and_confirmed)"
    by (simp add: unique_keys_def stale_and_confirmed_def)
  have e: "\<forall>(k, row) \<in> set (rows stale_and_confirmed). codec_exact toy_codec (tx row)"
    by (simp add: stale_and_confirmed_def toy_row_def toy_codec_exact)
  have p: "filter (\<lambda>(k, row). \<not> purged 2000 (unconfirmed_timeout stale_and_confirmed) row)
      (rows stale_and_confirmed) = [(1, toy_row 1 7 confirmed 500 True True)]"
    by (simp add: stale_and_confirmed_def purged_def toy_row_def unconfirmed_def confirmed_def)
  have r: "reloaded 3000 (toy_row 1 7 confirmed 500 True True)
      = (toy_row 1 7 confirmed 500 True True)\<lparr>timestamp := 3000\<rparr>"
    by (simp add: reloaded_def toy_row_def unconfirmed_def confirmed_def)
  from round_trip [OF u e, of 3000 2000 "new_db 5"]
  have "load toy_codec 3000 (serialize toy_codec 2000 stale_and_confirmed) (new_db 5) =
      Some (None, (new_db 5)\<lparr>last_height := last_height stale_and_confirmed,
        rows := map (\<lambda>(k, row). (k, reloaded 3000 row))
          (filter (\<lambda>(k, row). \<not> purged 2000 (unconfirmed_timeout stale_and_confirmed) row)
             (rows stale_and_confirmed))\<rparr>)"
    by blast
  then have "load toy_codec 3000 (serialize toy_codec 2000 stale_and_confirmed) (new_db 5) =
       Some (None, \<lparr>rows = [(1, (toy_row 1 7 confirmed 500 True True)\<lparr>timestamp := 3000\<rparr>)],
                    last_height = 100, unconfirmed_timeout = 5\<rparr>)"
    unfolding p by (simp add: r new_db_def stale_and_confirmed_def)
  with u e show ?thesis by (simp add: list_all_iff)
qed

subsection \<open>Errors of load\<close>

lemma errors_distinct:
  "Truncated \<noteq> UnknownRecord" "Truncated \<noteq> OutdatedFormat" "Truncated \<noteq> UnknownHeader"
  "UnknownRecord \<noteq> OutdatedFormat" "UnknownRecord \<noteq> UnknownHeader" "OutdatedFormat \<noteq> UnknownHeader"
  by (simp_all add: Truncated_def UnknownRecord_def OutdatedFormat_def UnknownHeader_def)

lemma magics_distinct: "serial_magic \<noteq> old_serial_magic"
  by (simp add: serial_magic_def old_serial_magic_def)

text \<open>The reads of the deserializer, by the length of the input.\<close>

lemma read_byte_eq: "read_byte bs = (if length bs < 1 then None else Some (hd bs, drop 1 bs))"
  by (cases bs) (simp_all add: read_byte_def)

lemma read_4_bytes_eq:
  "read_4_bytes data = (if length data < 4 then None else Some (magic data, drop 4 data))"
  by (simp add: read_4_bytes_def read_bytes_def magic_def)

lemma read_8_bytes_eq:
  "read_8_bytes bs = (if length bs < 8 then None else Some (from_little_endian (take 8 bs), drop 8 bs))"
  by (simp add: read_8_bytes_def read_bytes_def)

lemma read_hash_eq:
  "read_hash bs = (if length bs < 32 then None else Some (from_little_endian (take 32 bs), drop 32 bs))"
  by (simp add: read_hash_def read_bytes_def)

text \<open>The fields after the transaction are read exactly when 76 bytes are left, and
  they take those 76 bytes.\<close>

lemma read_row_tail_None: "read_row_tail now h t bs = None \<longleftrightarrow> length bs < 76"
  by (auto simp: read_row_tail_def read_byte_eq read_hash_eq read_8_bytes_eq
      split: Option.bind_splits if_splits)

lemma read_row_tail_rest:
  "read_row_tail now h t bs = Some (node, rest) \<Longrightarrow> rest = drop 76 bs"
  by (auto simp: read_row_tail_def read_byte_eq read_hash_eq read_8_bytes_eq
      split: Option.bind_splits if_splits)

lemma read_row_head_eq:
  "read_row_head c bs =
     (if length bs < 32 then None
      else map_option (\<lambda>t. (from_little_endian (take 32 bs), t, drop 32 bs))
             (satoshi_load c (drop 32 bs)))"
  by (auto simp: read_row_head_def read_hash_eq split: Option.bind_splits)

text \<open>One pass of the loop, by the bytes of the input.\<close>

lemma read_row_cases:
  "read_row c now (b # bs0) =
     (if b \<noteq> serial_tx then unknown_entry
      else if length bs0 < 32 then end_of_stream
      else (case satoshi_load c (drop 32 bs0) of
              None \<Rightarrow> end_of_stream
            | Some t \<Rightarrow>
                if length bs0 < 32 + satoshi_raw_size c t then past_the_end
                else if length bs0 < 32 + satoshi_raw_size c t + 76 then end_of_stream
                else (case read_row_tail now (from_little_endian (take 32 bs0)) t
                             (drop (32 + satoshi_raw_size c t) bs0) of
                        None \<Rightarrow> end_of_stream
                      | Some (node, rest) \<Rightarrow> Row node (drop (32 + satoshi_raw_size c t + 76) bs0))))"
proof (cases "b \<noteq> serial_tx \<or> length bs0 < 32")
  case True
  then show ?thesis
    by (auto simp: read_row_def read_byte_def read_row_head_eq)
next
  case False
  then have b: "b = serial_tx" and l: "\<not> length bs0 < 32" by simp_all
  show ?thesis
  proof (cases "satoshi_load c (drop 32 bs0)")
    case None
    with b l show ?thesis
      by (simp add: read_row_def read_byte_def read_row_head_eq)
  next
    case (Some t)
    let ?n = "satoshi_raw_size c t"
    let ?tail = "read_row_tail now (from_little_endian (take 32 bs0)) t (drop (32 + ?n) bs0)"
    from l have past: "length bs0 - 32 < ?n \<longleftrightarrow> length bs0 < 32 + ?n" by linarith
    have d: "drop ?n (drop 32 bs0) = drop (32 + ?n) bs0" by (simp add: add.commute)
    have r: "read_row c now (b # bs0) =
        (if length bs0 < 32 + ?n then past_the_end
         else (case ?tail of None \<Rightarrow> end_of_stream | Some (node, rest) \<Rightarrow> Row node rest))"
      using b l Some past
      by (simp add: read_row_def read_byte_def read_row_head_eq d del: drop_drop)
    have t: "(case ?tail of None \<Rightarrow> end_of_stream | Some (node, rest) \<Rightarrow> Row node rest) =
        (if length bs0 < 32 + ?n + 76 then end_of_stream
         else (case ?tail of None \<Rightarrow> end_of_stream
               | Some (node, rest) \<Rightarrow> Row node (drop (32 + ?n + 76) bs0)))"
      if "\<not> length bs0 < 32 + ?n"
    proof (cases ?tail)
      case None
      then show ?thesis by simp
    next
      case (Some a)
      obtain node rest where a: "a = (node, rest)" by (cases a)
      from Some have "?tail \<noteq> None" by simp
      then have "\<not> length (drop (32 + ?n) bs0) < 76" by (simp add: read_row_tail_None)
      then have len: "\<not> length bs0 < 32 + ?n + 76" by simp
      from read_row_tail_rest [OF Some [unfolded a]]
      have "rest = drop (32 + ?n + 76) bs0" by (simp add: add.commute)
      with Some a len show ?thesis by simp
    qed
    show ?thesis
      unfolding r using b l Some t by simp
  qed
qed

text \<open>The pass throws \<open>end_of_stream\<close> exactly on a record that is cut, and reads a row
  exactly on a whole record, leaving what follows the record.\<close>

lemma read_row_cut:
  "bs \<noteq> [] \<Longrightarrow> read_row c now bs = end_of_stream \<longleftrightarrow> cut_record c bs"
proof (cases bs)
  case Nil
  assume "bs \<noteq> []"
  with Nil show ?thesis by simp
next
  case (Cons b bs0)
  show ?thesis
    unfolding Cons read_row_cases cut_record_def
    by (auto simp: read_row_tail_None split: option.splits)
qed

lemma read_row_whole:
  "(\<exists>node. read_row c now bs = Row node rest) \<longleftrightarrow> whole_record c bs rest"
proof (cases bs)
  case Nil
  then show ?thesis by (simp add: read_row_def read_byte_def whole_record_def)
next
  case (Cons b bs0)
  have d: "drop (109 + n) (x # xs) = drop (108 + n) xs" for n and x :: byte and xs
    by (simp add: drop_Cons')
  show ?thesis
    unfolding Cons read_row_cases whole_record_def
    by (auto simp: read_row_tail_None d split: option.splits)
qed

lemma read_row_unknown_entry:
  "rem \<noteq> [] \<Longrightarrow> read_row c now rem = unknown_entry \<longleftrightarrow> hd rem \<noteq> serial_tx"
  by (cases rem) (auto simp: read_row_def read_byte_def split: option.splits)

lemma whole_record_not_empty: "whole_record c bs rest \<Longrightarrow> bs \<noteq> []"
  by (simp add: whole_record_def)

lemma records_then_not_empty:
  "records_then c bs rem \<Longrightarrow> rem \<noteq> [] \<Longrightarrow> bs \<noteq> []"
  by (induction rule: records_then.induct) (auto dest: whole_record_not_empty)

lemma load_rows_error:
  "load_rows c now bs acc = Some (Inl e) \<Longrightarrow>
   \<exists>rem. records_then c bs rem \<and> rem \<noteq> [] \<and>
     (e = Truncated \<and> cut_record c rem \<or> e = UnknownRecord \<and> hd rem \<noteq> serial_tx)"
proof (induction c now bs acc rule: load_rows.induct)
  case (1 c now bs rs)
  from "1.prems" have ne: "bs \<noteq> []"
    by (auto simp: load_rows.simps [of c now bs rs] split: if_splits)
  show ?case
  proof (cases "read_row c now bs")
    case (Row node rest)
    with "1.prems" ne have "load_rows c now rest (assign node rs) = Some (Inl e)"
      by (simp add: load_rows.simps [of c now bs rs])
    from "1.IH" [OF ne Row this] obtain rem where
      "records_then c rest rem" "rem \<noteq> []"
      "e = Truncated \<and> cut_record c rem \<or> e = UnknownRecord \<and> hd rem \<noteq> serial_tx"
      by blast
    moreover from Row have "whole_record c bs rest"
      using read_row_whole [of c now bs rest] by blast
    ultimately show ?thesis by (blast intro: records_then.whole)
  next
    case end_of_stream
    with "1.prems" ne have "e = Truncated"
      by (simp add: load_rows.simps [of c now bs rs])
    moreover from end_of_stream ne have "cut_record c bs"
      by (simp add: read_row_cut)
    ultimately show ?thesis using ne by (blast intro: records_then.stop)
  next
    case unknown_entry
    with "1.prems" ne have "e = UnknownRecord"
      by (simp add: load_rows.simps [of c now bs rs])
    moreover from unknown_entry ne have "hd bs \<noteq> serial_tx"
      by (simp add: read_row_unknown_entry)
    ultimately show ?thesis using ne by (blast intro: records_then.stop)
  next
    case past_the_end
    with "1.prems" ne show ?thesis
      by (simp add: load_rows.simps [of c now bs rs])
  qed
qed

lemma load_rows_truncated:
  "records_then c bs rem \<Longrightarrow> cut_record c rem
   \<Longrightarrow> load_rows c now bs acc = Some (Inl Truncated)"
proof (induction arbitrary: acc rule: records_then.induct)
  case (stop bs)
  then have "bs \<noteq> []" "read_row c now bs = end_of_stream"
    by (simp_all add: cut_record_def read_row_cut)
  then show ?case by (simp add: load_rows.simps [of c now bs acc])
next
  case (whole bs rest rem)
  from whole.hyps(1) have ne: "bs \<noteq> []" by (rule whole_record_not_empty)
  from whole.hyps(1) obtain node where "read_row c now bs = Row node rest"
    using read_row_whole [of c now bs rest] by blast
  with ne whole.IH [OF whole.prems] show ?case
    by (simp add: load_rows.simps [of c now bs acc])
qed

lemma load_rows_unknown:
  "records_then c bs rem \<Longrightarrow> rem \<noteq> [] \<Longrightarrow> hd rem \<noteq> serial_tx
   \<Longrightarrow> load_rows c now bs acc = Some (Inl UnknownRecord)"
proof (induction arbitrary: acc rule: records_then.induct)
  case (stop bs)
  then have "read_row c now bs = unknown_entry"
    by (simp add: read_row_unknown_entry)
  with stop show ?case by (simp add: load_rows.simps [of c now bs acc])
next
  case (whole bs rest rem)
  from whole.hyps(1) have ne: "bs \<noteq> []" by (rule whole_record_not_empty)
  from whole.hyps(1) obtain node where "read_row c now bs = Row node rest"
    using read_row_whole [of c now bs rest] by blast
  with ne whole.IH [OF whole.prems] show ?case
    by (simp add: load_rows.simps [of c now bs acc])
qed

lemma load_rows_Truncated_iff:
  "load_rows c now bs acc = Some (Inl Truncated) \<longleftrightarrow>
     (\<exists>rem. records_then c bs rem \<and> cut_record c rem)"
proof
  assume "load_rows c now bs acc = Some (Inl Truncated)"
  from load_rows_error [OF this] errors_distinct(1)
  show "\<exists>rem. records_then c bs rem \<and> cut_record c rem"
    by blast
next
  assume "\<exists>rem. records_then c bs rem \<and> cut_record c rem"
  then show "load_rows c now bs acc = Some (Inl Truncated)"
    by (blast intro: load_rows_truncated)
qed

lemma load_rows_UnknownRecord_iff:
  "load_rows c now bs acc = Some (Inl UnknownRecord) \<longleftrightarrow>
     (\<exists>rem. records_then c bs rem \<and> rem \<noteq> [] \<and> hd rem \<noteq> serial_tx)"
proof
  assume "load_rows c now bs acc = Some (Inl UnknownRecord)"
  from load_rows_error [OF this] errors_distinct(1)
  show "\<exists>rem. records_then c bs rem \<and> rem \<noteq> [] \<and> hd rem \<noteq> serial_tx"
    by metis
next
  assume "\<exists>rem. records_then c bs rem \<and> rem \<noteq> [] \<and> hd rem \<noteq> serial_tx"
  then show "load_rows c now bs acc = Some (Inl UnknownRecord)"
    by (blast intro: load_rows_unknown)
qed

lemma load_short:
  "length data < 4 \<Longrightarrow> load c now data db = Some (Some Truncated, db)"
  by (simp add: load_def read_4_bytes_eq)

lemma load_bad_magic:
  "4 \<le> length data \<Longrightarrow> magic data \<noteq> serial_magic \<Longrightarrow>
   load c now data db =
     Some (Some (if old_serial_magic = magic data then OutdatedFormat else UnknownHeader), db)"
  by (simp add: load_def read_4_bytes_eq)

lemma load_short_height:
  "4 \<le> length data \<Longrightarrow> magic data = serial_magic \<Longrightarrow> length data < 12 \<Longrightarrow>
   load c now data db = Some (Some Truncated, db)"
proof -
  assume a: "4 \<le> length data" "magic data = serial_magic" "length data < 12"
  then have "length data - 4 < 8" by linarith
  with a show ?thesis
    by (simp add: load_def read_4_bytes_eq read_8_bytes_eq)
qed

lemma load_records:
  "12 \<le> length data \<Longrightarrow> magic data = serial_magic \<Longrightarrow>
   load c now data db =
     (case load_rows c now (drop 12 data) [] of
        None \<Rightarrow> None
      | Some (Inl e) \<Rightarrow> Some (Some e, db)
      | Some (Inr rs) \<Rightarrow>
          Some (None, db\<lparr>last_height := from_little_endian (take 8 (drop 4 data)), rows := rs\<rparr>))"
proof -
  assume a: "12 \<le> length data" "magic data = serial_magic"
  then have "\<not> length data - 4 < 8" "\<not> length data < 4" by linarith+
  with a show ?thesis
    by (simp add: load_def read_4_bytes_eq read_8_bytes_eq)
qed

lemma load_status_records:
  "12 \<le> length data \<Longrightarrow> magic data = serial_magic \<Longrightarrow>
   load_status c now data db = Some (Some e) \<longleftrightarrow> load_rows c now (drop 12 data) [] = Some (Inl e)"
  by (auto simp: load_status_def load_records split: option.splits sum.splits)

text \<open>
  C7, as amended. For every input, \<open>load\<close> fails with \<open>OutdatedFormat\<close> exactly when the
  input has four bytes and its magic is the legacy one; with \<open>UnknownHeader\<close> exactly
  when it has four bytes and its magic is neither the current nor the legacy one;
  with \<open>Truncated\<close> exactly when the input ends inside the magic, or inside the
  \<open>last_height\<close> that follows the current magic, or, after whole records, inside a
  record that its kind byte \<open>0x42\<close> has begun: before the 32 bytes of its key are
  complete, or where the codec finds the transaction incomplete, or before the 76
  bytes after the transaction are complete; with \<open>UnknownRecord\<close> exactly when, after
  the header and whole records, a kind byte other than \<open>0x42\<close> comes. Whenever \<open>load\<close>
  fails the database is the one before the call.
\<close>

theorem load_errors:
  "(load_status c now data db = Some (Some OutdatedFormat) \<longleftrightarrow>
      4 \<le> length data \<and> magic data = old_serial_magic)
   \<and> (load_status c now data db = Some (Some UnknownHeader) \<longleftrightarrow>
      4 \<le> length data \<and> magic data \<noteq> serial_magic \<and> magic data \<noteq> old_serial_magic)
   \<and> (load_status c now data db = Some (Some Truncated) \<longleftrightarrow>
      length data < 4
      \<or> 4 \<le> length data \<and> magic data = serial_magic
         \<and> (length data < 12
            \<or> (\<exists>rem. records_then c (drop 12 data) rem \<and> cut_record c rem)))
   \<and> (load_status c now data db = Some (Some UnknownRecord) \<longleftrightarrow>
      12 \<le> length data \<and> magic data = serial_magic
      \<and> (\<exists>rem. records_then c (drop 12 data) rem \<and> rem \<noteq> [] \<and> hd rem \<noteq> serial_tx))
   \<and> (load c now data db = Some (Some e, db') \<longrightarrow> db' = db)"
proof -
  consider (short) "length data < 4"
    | (other) "4 \<le> length data" "magic data \<noteq> serial_magic"
    | (height) "4 \<le> length data" "magic data = serial_magic" "length data < 12"
    | (records) "12 \<le> length data" "magic data = serial_magic"
    by linarith
  then show ?thesis
  proof cases
    case short
    from load_short [OF short, of c now db] show ?thesis
      using short by (auto simp: load_status_def errors_distinct)
  next
    case other
    from load_bad_magic [OF other, of c now db] show ?thesis
      using other errors_distinct by (auto simp: load_status_def)
  next
    case height
    from load_short_height [OF height, of c now db] show ?thesis
      using height errors_distinct magics_distinct by (auto simp: load_status_def)
  next
    case records
    have atomic: "load c now data db = Some (Some e, db') \<longrightarrow> db' = db"
      by (auto simp: load_records [OF records] split: option.splits sum.splits)
    have no_header: "load_rows c now (drop 12 data) [] \<noteq> Some (Inl OutdatedFormat)"
      "load_rows c now (drop 12 data) [] \<noteq> Some (Inl UnknownHeader)"
      using load_rows_error [of c now "drop 12 data" "[]"] errors_distinct by metis+
    from records have len: "4 \<le> length data" "\<not> length data < 4" "\<not> length data < 12" by simp_all
    show ?thesis
      using atomic no_header len records(2) magics_distinct
      by (simp add: load_status_records [OF records] load_rows_Truncated_iff
          load_rows_UnknownRecord_iff records(1))
  qed
qed

theorem load_errors_witness:
  "4 \<le> length outdated_blob \<and> magic outdated_blob = old_serial_magic
   \<and> load_status toy_codec 3000 outdated_blob (new_db 5) = Some (Some OutdatedFormat)
   \<and> load toy_codec 3000 outdated_blob (new_db 5) = Some (Some OutdatedFormat, new_db 5)
   \<and> magic cut_blob = serial_magic \<and> drop 12 cut_blob = [0x42, 1, 2, 3]
   \<and> cut_record toy_codec [0x42, 1, 2, 3]
   \<and> load_status toy_codec 3000 cut_blob (new_db 5) = Some (Some Truncated)
   \<and> length cut_tail_blob = 245 \<and> magic cut_tail_blob = serial_magic
   \<and> whole_record toy_codec (drop 12 cut_tail_blob) (drop 129 cut_tail_blob)
   \<and> length (drop 129 cut_tail_blob) = 116
   \<and> cut_record toy_codec (drop 129 cut_tail_blob)
   \<and> load_status toy_codec 3000 cut_tail_blob (new_db 5) = Some (Some Truncated)"
proof -
  have m: "4 \<le> length outdated_blob \<and> magic outdated_blob = old_serial_magic"
    by (simp add: outdated_blob_def magic_def old_serial_magic_def)
  from load_errors [of toy_codec 3000 outdated_blob "new_db 5"] m
  have s: "load_status toy_codec 3000 outdated_blob (new_db 5) = Some (Some OutdatedFormat)"
    by blast
  then obtain db' where l: "load toy_codec 3000 outdated_blob (new_db 5) = Some (Some OutdatedFormat, db')"
    by (auto simp: load_status_def)
  with load_errors [of toy_codec 3000 outdated_blob "new_db 5" OutdatedFormat db']
  have "db' = new_db 5" by blast
  with l have a: "load toy_codec 3000 outdated_blob (new_db 5) = Some (Some OutdatedFormat, new_db 5)"
    by simp
  have c: "4 \<le> length cut_blob" "magic cut_blob = serial_magic" "drop 12 cut_blob = [0x42, 1, 2, 3]"
    by (simp_all add: cut_blob_def magic_def serial_magic_def)
  have r: "cut_record toy_codec [0x42, 1, 2, 3]"
    by (simp add: cut_record_def serial_tx_def)
  have "records_then toy_codec (drop 12 cut_blob) [0x42, 1, 2, 3]"
    unfolding c(3) by (rule records_then.stop)
  with r have "\<exists>rem. records_then toy_codec (drop 12 cut_blob) rem \<and> cut_record toy_codec rem"
    by blast
  with load_errors [of toy_codec 3000 cut_blob "new_db 5"] c(1,2)
  have t: "load_status toy_codec 3000 cut_blob (new_db 5) = Some (Some Truncated)"
    by blast
  have n: "length cut_tail_blob = 245" "magic cut_tail_blob = serial_magic"
    unfolding cut_tail_blob_def malleated_pair_def by code_simp+
  have w: "whole_record toy_codec (drop 12 cut_tail_blob) (drop 129 cut_tail_blob)"
    unfolding cut_tail_blob_def malleated_pair_def by code_simp
  have k: "length (drop 129 cut_tail_blob) = 116"
    using n(1) by simp
  have u: "cut_record toy_codec (drop 129 cut_tail_blob)"
    unfolding cut_tail_blob_def malleated_pair_def by code_simp
  from w have "records_then toy_codec (drop 12 cut_tail_blob) (drop 129 cut_tail_blob)"
    by (rule records_then.whole) (rule records_then.stop)
  with u have "\<exists>rem. records_then toy_codec (drop 12 cut_tail_blob) rem \<and> cut_record toy_codec rem"
    by blast
  with load_errors [of toy_codec 3000 cut_tail_blob "new_db 5"] n
  have v: "load_status toy_codec 3000 cut_tail_blob (new_db 5) = Some (Some Truncated)"
    by simp
  from m s a c r t n w k u v show ?thesis by simp
qed

text \<open>
  C7 as it is stated fails: \<open>load\<close> of the empty input fails with \<open>Truncated\<close>, and no
  record has begun.
\<close>

theorem load_truncated_counterexample:
  "load toy_codec 3000 [] (new_db 5) = Some (Some Truncated, new_db 5)
   \<and> \<not> (\<exists>rem. records_then toy_codec [] rem \<and> rem \<noteq> [])"
proof -
  have "load toy_codec 3000 [] (new_db 5) = Some (Some Truncated, new_db 5)"
    by (rule load_short) simp
  moreover have "\<not> (\<exists>rem. records_then toy_codec [] rem \<and> rem \<noteq> [])"
    using records_then_not_empty [of toy_codec "[]"] by blast
  ultimately show ?thesis by simp
qed

end
